theory Spec2Isabelle
  imports Main "HOL-Library.Word" "HOL-Library.Monad_Syntax"
begin

unbundle bit_operations_syntax

chapter \<open>Request and buffer pooling of the V4L2 request API (v4l2_req_media.c)\<close>

text \<open>
  The development embeds the functions of \<^verbatim>\<open>libavcodec/v4l2_req_media.c\<close> as HOL
  functions and proves properties of them. Mutexes are not modelled: every function is
  taken to run atomically, which is what the locks of the source provide for the state they
  guard. Calls into the kernel (\<^verbatim>\<open>ioctl\<close>) take their outcome from a script held in the
  state and append what was asked to a trace.
\<close>

section \<open>Size classes\<close>

text \<open>
  \<^verbatim>\<open>size_t\<close> is taken as 64 bits wide and \<^verbatim>\<open>unsigned int\<close> as 32 bits wide. The masks
  \<^verbatim>\<open>~0xffff\<close> etc. are \<^verbatim>\<open>int\<close> values converted to \<^verbatim>\<open>size_t\<close> by sign extension, which
  is the complement at 64 bits.
\<close>

type_synonym size_t = "64 word"
type_synonym uint = "32 word"

definition log2_size :: "size_t \<Rightarrow> uint" where
  "log2_size x0 =
    (let (n1, x1) = (if x0 AND NOT 0xffff \<noteq> 0 then (16, drop_bit 16 x0) else (0, x0));
         (n2, x2) = (if x1 AND NOT 0xff \<noteq> 0 then (n1 + 8, drop_bit 8 x1) else (n1, x1));
         (n3, x3) = (if x2 AND NOT 0xf \<noteq> 0 then (n2 + 4, drop_bit 4 x2) else (n2, x2));
         (n4, x4) = (if x3 AND NOT 3 \<noteq> 0 then (n3 + 2, drop_bit 2 x3) else (n3, x3))
     in if x4 AND NOT 1 \<noteq> 0 then n4 + 1 else n4)"

text \<open>
  \<^verbatim>\<open>3 << n\<close> and \<^verbatim>\<open>4 << n\<close> are shifts of an \<^verbatim>\<open>int\<close>: the result is defined only when
  the shift count is below the width and the mathematical value fits in 31 bits; \<open>None\<close>
  stands for the undefined cases.
\<close>

definition shl_int :: "int \<Rightarrow> uint \<Rightarrow> int option" where
  "shl_int a n =
    (if unat n < 32 \<and> 0 \<le> a \<and> a * 2 ^ unat n \<le> 2147483647
     then Some (a * 2 ^ unat n) else None)"

definition round_up_size :: "size_t \<Rightarrow> size_t option" where
  "round_up_size x =
    (let n = (if x < 256 then 8 else log2_size x - 1) in
     case shl_int 3 n of
       None \<Rightarrow> None
     | Some t \<Rightarrow>
         if x \<ge> word_of_int t then map_option word_of_int (shl_int 4 n)
         else map_option word_of_int (shl_int 3 n))"

section \<open>Memory\<close>

text \<open>
  Objects that the code reaches through pointers live in heaps: partial maps from addresses
  to values, one heap per struct type. \<open>None\<close> as the result of a function that reads or
  writes through a pointer stands for a call that does not return normally: a dereference
  of memory that is not allocated, a loop that does not end, or a blocking call that is
  never released.
\<close>

type_synonym addr = nat
type_synonym 'e heap = "addr \<Rightarrow> 'e option"

definition upd :: "'e heap \<Rightarrow> addr \<Rightarrow> ('e \<Rightarrow> 'e) \<Rightarrow> 'e heap option" where
  "upd h a f = (case h a of None \<Rightarrow> None | Some e \<Rightarrow> Some (h(a \<mapsto> f e)))"

record timeval =
  tv_sec :: int
  tv_usec :: int

section \<open>Shareable-buffer handles\<close>

text \<open>
  Modelled from the spec: \<^verbatim>\<open>v4l2_req_dmabufs.c\<close> is not among the sources. A handle is a
  memory region with a file-descriptor identity, a size and a recorded length of valid
  data. The accessors take a possibly-NULL handle, as the callers in this file pass one
  (\<^verbatim>\<open>qent_dst_dup_fd\<close>, \<^verbatim>\<open>qent_base_realloc\<close>); the descriptor of no handle is \<open>-1\<close>.
  Every handle belongs to one entry, so the entry holds it by value.
\<close>

record dmabuf_h =
  dh_fd :: int
  dh_size :: size_t
  dh_len :: size_t

definition dmabuf_fd :: "dmabuf_h option \<Rightarrow> int" where
  "dmabuf_fd d = (case d of None \<Rightarrow> - 1 | Some b \<Rightarrow> dh_fd b)"

definition dmabuf_size :: "dmabuf_h option \<Rightarrow> size_t" where
  "dmabuf_size d = (case d of None \<Rightarrow> 0 | Some b \<Rightarrow> dh_size b)"

definition dmabuf_len :: "dmabuf_h option \<Rightarrow> size_t" where
  "dmabuf_len d = (case d of None \<Rightarrow> 0 | Some b \<Rightarrow> dh_len b)"

definition dmabuf_len_set :: "dmabuf_h \<Rightarrow> size_t \<Rightarrow> dmabuf_h" where
  "dmabuf_len_set b l = b\<lparr>dh_len := l\<rparr>"

section \<open>Buffer entries and buffer queues\<close>

text \<open>
  \<^verbatim>\<open>VIDEO_MAX_PLANES\<close> is the constant of \<^verbatim>\<open>linux/videodev2.h\<close>. The array \<^verbatim>\<open>dh\<close> of an
  entry is a list of that many slots. The links \<^verbatim>\<open>next\<close> and \<^verbatim>\<open>prev\<close> are the fields
  \<open>qe_next\<close> and \<open>qe_prev\<close>.
\<close>

definition VIDEO_MAX_PLANES :: nat where
  "VIDEO_MAX_PLANES = 8"

datatype qent_status =
  QENT_NEW | QENT_PENDING | QENT_WAITING | QENT_DONE | QENT_ERROR | QENT_IMPORT

record qent_base =
  qe_next :: "addr option"
  qe_prev :: "addr option"
  status :: qent_status
  index :: uint
  dh :: "dmabuf_h option list"
  timestamp :: timeval

record qent_src = qent_base +
  fixed_size :: int

text \<open>
  Modelled from the spec: \<^verbatim>\<open>weak_link.c\<close> is not among the sources. A destination entry
  holds a client handle of the weak link to its controller, or NULL.
\<close>

datatype wl_client = Wl_client

record qent_dst = qent_base +
  waiting :: bool
  mbc_wl :: "wl_client option"

record buf_pool =
  free_sem :: nat
  free_head :: "addr option"
  free_tail :: "addr option"
  inuse_head :: "addr option"
  inuse_tail :: "addr option"

text \<open>
  A semaphore is its count. \<^verbatim>\<open>sem_wait\<close> on a valid semaphore fails only when
  interrupted, which \<^verbatim>\<open>do_wait\<close> retries: it returns 0 after taking one unit, and does not
  return while the count is 0. \<^verbatim>\<open>sem_trywait\<close> fails with \<^verbatim>\<open>EAGAIN\<close> on a count of 0.
\<close>

definition do_wait :: "nat \<Rightarrow> (int \<times> nat) option" where
  "do_wait sem = (if sem = 0 then None else Some (0, sem - 1))"



definition bq_put_free ::
  "buf_pool \<Rightarrow> addr \<Rightarrow> ('a qent_base_scheme) heap \<Rightarrow> (buf_pool \<times> ('a qent_base_scheme) heap) option" where
  "bq_put_free bp be h = do {
     (bp1, h1) \<leftarrow> (case free_tail bp of
                     Some t \<Rightarrow> do { h' \<leftarrow> upd h t (\<lambda>e. e\<lparr>qe_next := Some be\<rparr>); Some (bp, h') }
                   | None \<Rightarrow> Some (bp\<lparr>free_head := Some be\<rparr>, h));
     h2 \<leftarrow> upd h1 be (\<lambda>e. e\<lparr>qe_prev := free_tail bp1\<rparr>);
     h3 \<leftarrow> upd h2 be (\<lambda>e. e\<lparr>qe_next := None\<rparr>);
     Some (bp1\<lparr>free_tail := Some be\<rparr>, h3)
   }"


definition bq_extract_inuse ::
  "buf_pool \<Rightarrow> addr \<Rightarrow> ('a qent_base_scheme) heap \<Rightarrow> (addr \<times> buf_pool \<times> ('a qent_base_scheme) heap) option" where
  "bq_extract_inuse bp be h = do {
     e \<leftarrow> h be;
     (bp1, h1) \<leftarrow> (case qe_next e of
                     Some n \<Rightarrow> do { h' \<leftarrow> upd h n (\<lambda>x. x\<lparr>qe_prev := qe_prev e\<rparr>); Some (bp, h') }
                   | None \<Rightarrow> Some (bp\<lparr>inuse_tail := qe_prev e\<rparr>, h));
     (bp2, h2) \<leftarrow> (case qe_prev e of
                     Some p \<Rightarrow> do { h' \<leftarrow> upd h1 p (\<lambda>x. x\<lparr>qe_next := qe_next e\<rparr>); Some (bp1, h') }
                   | None \<Rightarrow> Some (bp1\<lparr>inuse_head := qe_next e\<rparr>, h1));
     h3 \<leftarrow> upd h2 be (\<lambda>x. x\<lparr>qe_next := None, qe_prev := None\<rparr>);
     Some (be, bp2, h3)
   }"

text \<open>
  The loop \<^verbatim>\<open>for (i = 0; i < VIDEO_MAX_PLANES && be->dh[i]; ++i) dmabuf_len_set(be->dh[i], 0)\<close>:
  it runs over the leading populated slots and stops at the first empty one or at the end
  of the array. \<open>lead_planes\<close> are the handles such a loop visits.
\<close>

fun len_reset :: "dmabuf_h option list \<Rightarrow> dmabuf_h option list" where
  "len_reset (Some d # ds) = Some (dmabuf_len_set d 0) # len_reset ds"
| "len_reset ds = ds"

fun lead_planes :: "dmabuf_h option list \<Rightarrow> dmabuf_h list" where
  "lead_planes (Some d # ds) = d # lead_planes ds"
| "lead_planes ds = []"

definition queue_put_free ::
  "buf_pool \<Rightarrow> addr \<Rightarrow> ('a qent_base_scheme) heap \<Rightarrow> (buf_pool \<times> ('a qent_base_scheme) heap) option" where
  "queue_put_free bp be h = do {
     h1 \<leftarrow> upd h be (\<lambda>e. e\<lparr>timestamp := \<lparr>tv_sec = 0, tv_usec = 0\<rparr>\<rparr>);
     h2 \<leftarrow> upd h1 be (\<lambda>e. e\<lparr>dh := len_reset (dh e)\<rparr>);
     (bp1, h3) \<leftarrow> bq_put_free bp be h2;
     Some (bp1\<lparr>free_sem := free_sem bp1 + 1\<rparr>, h3)
   }"

definition queue_is_inuse :: "buf_pool \<Rightarrow> bool" where
  "queue_is_inuse bp = (inuse_tail bp \<noteq> None)"

definition queue_put_inuse ::
  "buf_pool \<Rightarrow> addr option \<Rightarrow> ('a qent_base_scheme) heap \<Rightarrow> (buf_pool \<times> ('a qent_base_scheme) heap) option" where
  "queue_put_inuse bp pbe h =
     (case pbe of
        None \<Rightarrow> Some (bp, h)
      | Some be \<Rightarrow> do {
          (bp1, h1) \<leftarrow> (case inuse_tail bp of
                          Some t \<Rightarrow> do { h' \<leftarrow> upd h t (\<lambda>e. e\<lparr>qe_next := Some be\<rparr>); Some (bp, h') }
                        | None \<Rightarrow> Some (bp\<lparr>inuse_head := Some be\<rparr>, h));
          h2 \<leftarrow> upd h1 be (\<lambda>e. e\<lparr>qe_prev := inuse_tail bp1\<rparr>);
          h3 \<leftarrow> upd h2 be (\<lambda>e. e\<lparr>qe_next := None\<rparr>);
          h4 \<leftarrow> upd h3 be (\<lambda>e. e\<lparr>status := QENT_WAITING\<rparr>);
          Some (bp1\<lparr>inuse_tail := Some be\<rparr>, h4)
        })"



text \<open>
  The scan \<^verbatim>\<open>for (be = bp->inuse_head; be; be = be->next)\<close> of
  \<^verbatim>\<open>queue_find_extract_fd\<close>, up to the \<^verbatim>\<open>break\<close>. On a chain that is cyclic and has no
  match it does not end.
\<close>

partial_function (option) find_fd ::
  "('a qent_base_scheme) heap \<Rightarrow> int \<Rightarrow> addr option \<Rightarrow> addr option option" where
  "find_fd h fd be =
     (case be of
        None \<Rightarrow> Some None
      | Some a \<Rightarrow>
          (case h a of
             None \<Rightarrow> None
           | Some e \<Rightarrow>
               (case dh e of
                  [] \<Rightarrow> None
                | d0 # _ \<Rightarrow> if dmabuf_fd d0 = fd then Some (Some a) else find_fd h fd (qe_next e))))"

definition queue_find_extract_fd ::
  "buf_pool \<Rightarrow> int \<Rightarrow> ('a qent_base_scheme) heap \<Rightarrow> (addr option \<times> buf_pool \<times> ('a qent_base_scheme) heap) option" where
  "queue_find_extract_fd bp fd h = do {
     be \<leftarrow> find_fd h fd (inuse_head bp);
     case be of
       None \<Rightarrow> Some (None, bp, h)
     | Some a \<Rightarrow> do { (r, bp1, h1) \<leftarrow> bq_extract_inuse bp a h; Some (Some a, bp1, h1) }
   }"

section \<open>The kernel interface\<close>

text \<open>
  Modelled from the spec: \<^verbatim>\<open>v4l2_req_media.h\<close> is not among the sources; the status codes
  are the closed set the spec lists.
\<close>

datatype MediaBufsStatus =
    MEDIABUFS_STATUS_SUCCESS
  | MEDIABUFS_ERROR_OPERATION_FAILED
  | MEDIABUFS_ERROR_DECODING_ERROR
  | MEDIABUFS_ERROR_UNSUPPORTED_BUFFERTYPE
  | MEDIABUFS_ERROR_ALLOCATION_FAILED

text \<open>
  Constants and structures of the kernel headers (\<^verbatim>\<open>errno.h\<close>, \<^verbatim>\<open>poll.h\<close>,
  \<^verbatim>\<open>linux/videodev2.h\<close>), with the fields this file uses. The members \<^verbatim>\<open>pix\<close> and
  \<^verbatim>\<open>pix_mp\<close> of the union in \<^verbatim>\<open>struct v4l2_format\<close> are kept side by side; the code reads
  and writes the one that the buffer type selects.
\<close>

definition EINTR :: int where "EINTR = 4"

definition V4L2_BUF_TYPE_VIDEO_CAPTURE :: uint where "V4L2_BUF_TYPE_VIDEO_CAPTURE = 1"
definition V4L2_BUF_TYPE_VIDEO_OUTPUT :: uint where "V4L2_BUF_TYPE_VIDEO_OUTPUT = 2"
definition V4L2_BUF_TYPE_VIDEO_CAPTURE_MPLANE :: uint where "V4L2_BUF_TYPE_VIDEO_CAPTURE_MPLANE = 9"
definition V4L2_BUF_TYPE_VIDEO_OUTPUT_MPLANE :: uint where "V4L2_BUF_TYPE_VIDEO_OUTPUT_MPLANE = 10"
definition V4L2_MEMORY_DMABUF :: uint where "V4L2_MEMORY_DMABUF = 4"
definition V4L2_BUF_FLAG_REQUEST_FD :: uint where "V4L2_BUF_FLAG_REQUEST_FD = 0x00800000"
definition V4L2_BUF_FLAG_M2M_HOLD_CAPTURE_BUF :: uint where "V4L2_BUF_FLAG_M2M_HOLD_CAPTURE_BUF = 0x00000200"

definition V4L2_MEMORY_MMAP :: uint where "V4L2_MEMORY_MMAP = 1"

definition V4L2_TYPE_IS_MULTIPLANAR :: "uint \<Rightarrow> bool" where
  "V4L2_TYPE_IS_MULTIPLANAR t =
     (t = V4L2_BUF_TYPE_VIDEO_CAPTURE_MPLANE \<or> t = V4L2_BUF_TYPE_VIDEO_OUTPUT_MPLANE)"

record v4l2_pix_format =
  pix_width :: uint
  pix_height :: uint
  pix_pixelformat :: uint
  pix_sizeimage :: uint

record v4l2_pix_format_mplane =
  mp_width :: uint
  mp_height :: uint
  mp_pixelformat :: uint
  mp_plane_sizeimage :: "uint list"
  mp_num_planes :: "8 word"

record v4l2_format =
  fmt_type :: uint
  fmt_pix :: v4l2_pix_format
  fmt_pix_mp :: v4l2_pix_format_mplane

definition zero_pix :: v4l2_pix_format where
  "zero_pix = \<lparr>pix_width = 0, pix_height = 0, pix_pixelformat = 0, pix_sizeimage = 0\<rparr>"

definition zero_pix_mp :: v4l2_pix_format_mplane where
  "zero_pix_mp = \<lparr>mp_width = 0, mp_height = 0, mp_pixelformat = 0,
                  mp_plane_sizeimage = replicate VIDEO_MAX_PLANES 0, mp_num_planes = 0\<rparr>"

record v4l2_plane =
  pl_bytesused :: uint
  pl_length :: uint
  pl_fd :: int

record v4l2_buffer =
  b_index :: uint
  b_type :: uint
  b_bytesused :: uint
  b_flags :: uint
  b_timestamp :: timeval
  b_memory :: uint
  b_fd :: int
  b_planes :: "v4l2_plane list"
  b_length :: uint
  b_request_fd :: int

text \<open>
  A call of \<^verbatim>\<open>ioctl\<close> appends the request to the trace of the kernel and takes its outcome
  from the script: success, success with the format or buffer structure the driver wrote
  back, or failure with an \<^verbatim>\<open>errno\<close>. An exhausted script means that the kernel never
  answers. \<open>ioctl_retry\<close> is the loop \<^verbatim>\<open>while (ioctl(...)) if (errno != EINTR) ...\<close>, which
  repeats the call while it is interrupted.
\<close>

datatype ioctl_req =
    VIDIOC_STREAMON uint
  | VIDIOC_STREAMOFF uint
  | VIDIOC_QBUF v4l2_buffer
  | VIDIOC_DQBUF v4l2_buffer
  | VIDIOC_S_FMT v4l2_format
  | VIDIOC_REQBUFS uint uint uint
  | MEDIA_REQUEST_IOC_QUEUE
  | MEDIA_REQUEST_IOC_REINIT

datatype ioctl_res = Ioctl_ok | Ioctl_fmt v4l2_format | Ioctl_buf v4l2_buffer | Ioctl_err int

record kernel =
  script :: "ioctl_res list"
  trace :: "(int \<times> ioctl_req) list"

definition ioctl :: "int \<Rightarrow> ioctl_req \<Rightarrow> kernel \<Rightarrow> (ioctl_res \<times> kernel) option" where
  "ioctl fd rq k =
     (case script k of
        [] \<Rightarrow> None
      | r # rs \<Rightarrow> Some (r, k\<lparr>script := rs, trace := trace k @ [(fd, rq)]\<rparr>))"

fun ioctl_retry_script ::
  "int \<Rightarrow> ioctl_req \<Rightarrow> ioctl_res list \<Rightarrow> (int \<times> ioctl_req) list \<Rightarrow> (ioctl_res \<times> kernel) option" where
  "ioctl_retry_script fd rq [] tr = None"
| "ioctl_retry_script fd rq (r # rs) tr =
     (if r = Ioctl_err EINTR then ioctl_retry_script fd rq rs (tr @ [(fd, rq)])
      else Some (r, \<lparr>script = rs, trace = tr @ [(fd, rq)]\<rparr>))"

definition ioctl_retry :: "int \<Rightarrow> ioctl_req \<Rightarrow> kernel \<Rightarrow> (ioctl_res \<times> kernel) option" where
  "ioctl_retry fd rq k = ioctl_retry_script fd rq (script k) (trace k)"

definition set_stream :: "int \<Rightarrow> uint \<Rightarrow> bool \<Rightarrow> kernel \<Rightarrow> (int \<times> kernel) option" where
  "set_stream video_fd type enable k = do {
     (r, k') \<leftarrow> ioctl video_fd (if enable then VIDIOC_STREAMON type else VIDIOC_STREAMOFF type) k;
     Some (case r of Ioctl_err errno \<Rightarrow> (- errno, k') | _ \<Rightarrow> (0, k'))
   }"

definition request_buffers :: "int \<Rightarrow> uint \<Rightarrow> uint \<Rightarrow> uint \<Rightarrow> kernel \<Rightarrow> (int \<times> kernel) option" where
  "request_buffers video_fd type memory buffers_count k = do {
     (r, k') \<leftarrow> ioctl video_fd (VIDIOC_REQBUFS type memory buffers_count) k;
     Some (case r of Ioctl_err errno \<Rightarrow> (- errno, k') | _ \<Rightarrow> (0, k'))
   }"

section \<open>The request pool and the controller\<close>

text \<open>
  A request holds its link in the free chain and its descriptor; the pool holds the
  semaphore count and the head of the free chain. There is one pool and one controller, so
  the back pointers \<^verbatim>\<open>req->mp\<close> and the poll-task pointers are left out. The two buffer
  pools are held in the controller by value.
\<close>

record media_request =
  req_next :: "addr option"
  req_fd :: int

record media_pool =
  mp_fd :: int
  sem :: nat
  free_reqs :: "addr option"

text \<open>
  Modelled from the spec: \<^verbatim>\<open>v4l2_req_pollqueue.c\<close> is not among the sources. The poll
  queue is the list of the armed tasks with their timeouts; a task is the one of a request
  or the one of the controller.
\<close>

datatype polltask = Pt_request addr | Pt_mediabufs

record mediabufs_ctl =
  ref_count :: int
  vfd :: int
  stream_on :: bool
  polling :: bool
  src :: buf_pool
  dst :: buf_pool
  src_fmt :: v4l2_format
  dst_fmt :: v4l2_format

text \<open>
  The state of the whole: the controller (\<open>None\<close> once it is freed), whether the master of
  its weak link still points to it, the heaps of the source entries, the destination
  entries and the requests, the request pool, the kernel and the poll queue. A function
  that takes a \<^verbatim>\<open>struct mediabufs_ctl *\<close> is given the pointer to this controller, so a
  freed controller makes it fail.
\<close>

record world =
  ctl :: "mediabufs_ctl option"
  wlm_linked :: bool
  srcs :: "qent_src heap"
  dsts :: "qent_dst heap"
  mpool :: media_pool
  reqs :: "media_request heap"
  kern :: kernel
  pollq :: "(polltask \<times> nat) list"

definition pollqueue_add_task :: "polltask \<Rightarrow> nat \<Rightarrow> world \<Rightarrow> world" where
  "pollqueue_add_task pt timeout_ms w = w\<lparr>pollq := pollq w @ [(pt, timeout_ms)]\<rparr>"

definition polltask_delete :: "polltask \<Rightarrow> world \<Rightarrow> world" where
  "polltask_delete pt w = w\<lparr>pollq := filter (\<lambda>(t, _). t \<noteq> pt) (pollq w)\<rparr>"

definition media_request_get :: "world \<Rightarrow> (addr option \<times> world) option" where
  "media_request_get w = do {
     (rc, s) \<leftarrow> do_wait (sem (mpool w));
     let w1 = w\<lparr>mpool := (mpool w)\<lparr>sem := s\<rparr>\<rparr>;
     if rc \<noteq> 0 then Some (None, w1)
     else (case free_reqs (mpool w1) of
             None \<Rightarrow> Some (None, w1)
           | Some req \<Rightarrow> do {
               r \<leftarrow> reqs w1 req;
               Some (Some req, w1\<lparr>mpool := (mpool w1)\<lparr>free_reqs := req_next r\<rparr>,
                                  reqs := (reqs w1)(req \<mapsto> r\<lparr>req_next := None\<rparr>)\<rparr>)
             })
   }"

definition media_request_fd :: "addr \<Rightarrow> world \<Rightarrow> int option" where
  "media_request_fd req w = map_option req_fd (reqs w req)"

definition media_request_start :: "addr \<Rightarrow> world \<Rightarrow> (int \<times> world) option" where
  "media_request_start req w = do {
     fd \<leftarrow> media_request_fd req w;
     (r, k') \<leftarrow> ioctl_retry fd MEDIA_REQUEST_IOC_QUEUE (kern w);
     (case r of
        Ioctl_err err \<Rightarrow> Some (- err, w\<lparr>kern := k'\<rparr>)
      | _ \<Rightarrow> Some (0, pollqueue_add_task (Pt_request req) 2000 (w\<lparr>kern := k'\<rparr>)))
   }"

definition media_request_done :: "addr \<Rightarrow> world \<Rightarrow> world option" where
  "media_request_done req w = do {
     fd \<leftarrow> media_request_fd req w;
     (r, k') \<leftarrow> ioctl fd MEDIA_REQUEST_IOC_REINIT (kern w);
     h \<leftarrow> upd (reqs w) req (\<lambda>x. x\<lparr>req_next := free_reqs (mpool w)\<rparr>);
     Some (w\<lparr>kern := k', reqs := h,
              mpool := (mpool w)\<lparr>free_reqs := Some req, sem := sem (mpool w) + 1\<rparr>\<rparr>)
   }"

definition media_request_abort :: "addr option \<Rightarrow> world \<Rightarrow> (int \<times> addr option \<times> world) option" where
  "media_request_abort preq w =
     (case preq of
        None \<Rightarrow> Some (0, None, w)
      | Some req \<Rightarrow> do { w' \<leftarrow> media_request_done req w; Some (0, None, w') })"

text \<open>
  \<^verbatim>\<open>media_pool_new\<close> takes the outcome of opening the device (the descriptor, or \<open>None\<close>
  when \<^verbatim>\<open>calloc\<close> or \<^verbatim>\<open>open\<close> fails) and, for the \<open>i\<close>-th request, whether \<^verbatim>\<open>malloc\<close>,
  the allocation \<^verbatim>\<open>ioctl\<close> and \<^verbatim>\<open>polltask_new\<close> succeed. The \<open>i\<close>-th request gets the
  address \<open>i\<close>. Every failure frees what was built and returns NULL.
\<close>

datatype req_alloc = Req_ok int | Malloc_failed | Request_alloc_failed | Polltask_failed

definition media_pool_new ::
  "int option \<Rightarrow> (nat \<Rightarrow> req_alloc) \<Rightarrow> nat \<Rightarrow> (media_pool \<times> media_request heap) option" where
  "media_pool_new opened alloc n =
     (case opened of
        None \<Rightarrow> None
      | Some fd \<Rightarrow>
          map_option (\<lambda>(fr, h). (\<lparr>mp_fd = fd, sem = n, free_reqs = fr\<rparr>, h))
            (fold (\<lambda>i acc. case acc of
                              None \<Rightarrow> None
                            | Some (fr, h) \<Rightarrow>
                                (case alloc i of
                                   Req_ok rfd \<Rightarrow> Some (Some i, h(i \<mapsto> \<lparr>req_next = fr, req_fd = rfd\<rparr>))
                                 | _ \<Rightarrow> None))
               [0..<n] (Some (None, Map.empty))))"

definition qe_dst_done :: "addr \<Rightarrow> world \<Rightarrow> world option" where
  "qe_dst_done dst_be w = do {
     h \<leftarrow> upd (dsts w) dst_be (\<lambda>e. e\<lparr>waiting := False\<rparr>);
     Some (w\<lparr>dsts := h\<rparr>)
   }"

definition qe_dst_waiting :: "addr \<Rightarrow> world \<Rightarrow> (bool \<times> world) option" where
  "qe_dst_waiting dst_be w = do {
     e \<leftarrow> dsts w dst_be;
     Some (waiting e, w\<lparr>dsts := (dsts w)(dst_be \<mapsto> e\<lparr>waiting := True\<rparr>)\<rparr>)
   }"

definition mediabufs_wants_poll :: "mediabufs_ctl \<Rightarrow> bool" where
  "mediabufs_wants_poll mbc = (queue_is_inuse (src mbc) \<or> queue_is_inuse (dst mbc))"

definition mediabufs_ctl_ref :: "mediabufs_ctl \<Rightarrow> mediabufs_ctl" where
  "mediabufs_ctl_ref mbc = mbc\<lparr>ref_count := ref_count mbc + 1\<rparr>"

text \<open>
  \<^verbatim>\<open>qe_v4l2_queue\<close> gets the entry by value and returns it as it leaves it; \<open>mreq_fd\<close> is
  the descriptor of the request, or \<open>None\<close> for a NULL request.
\<close>

definition qe_v4l2_queue ::
  "'a qent_base_scheme \<Rightarrow> int \<Rightarrow> int option \<Rightarrow> v4l2_format \<Rightarrow> bool \<Rightarrow> bool \<Rightarrow> kernel \<Rightarrow>
     (int \<times> 'a qent_base_scheme \<times> kernel) option" where
  "qe_v4l2_queue be video_fd mreq_fd fmt is_dst hold_flag k = do {
     let buffer0 = \<lparr>b_index = index be, b_type = fmt_type fmt, b_bytesused = 0, b_flags = 0,
                     b_timestamp = \<lparr>tv_sec = 0, tv_usec = 0\<rparr>, b_memory = V4L2_MEMORY_DMABUF,
                     b_fd = 0, b_planes = [], b_length = 0, b_request_fd = 0\<rparr>;
     (be1, buffer1) \<leftarrow>
       (if V4L2_TYPE_IS_MULTIPLANAR (fmt_type fmt) then
          (let be' = (if is_dst then be\<lparr>dh := len_reset (dh be)\<rparr> else be);
               ps = map (\<lambda>d. \<lparr>pl_bytesused = ucast (dmabuf_len (Some d)),
                               pl_length = ucast (dmabuf_size (Some d)),
                               pl_fd = dmabuf_fd (Some d)\<rparr>) (lead_planes (dh be'))
           in Some (be', buffer0\<lparr>b_planes := ps, b_length := of_nat (length ps)\<rparr>))
        else
          (case dh be of
             [] \<Rightarrow> None
           | d0 # ds \<Rightarrow>
               (if is_dst \<and> d0 = None then None
                else
                  (let d0' = (if is_dst then map_option (\<lambda>d. dmabuf_len_set d 0) d0 else d0)
                   in Some (be\<lparr>dh := d0' # ds\<rparr>,
                            buffer0\<lparr>b_bytesused := ucast (dmabuf_len d0'),
                                    b_length := ucast (dmabuf_size d0'),
                                    b_fd := dmabuf_fd d0'\<rparr>)))));
     let buffer2 = (case mreq_fd of
                      Some rfd \<Rightarrow>
                        if \<not> is_dst then
                          (let b = buffer1\<lparr>b_flags := b_flags buffer1 OR V4L2_BUF_FLAG_REQUEST_FD,
                                           b_request_fd := rfd\<rparr>
                           in if hold_flag
                              then b\<lparr>b_flags := b_flags b OR V4L2_BUF_FLAG_M2M_HOLD_CAPTURE_BUF\<rparr>
                              else b)
                        else buffer1
                    | None \<Rightarrow> buffer1);
     let be2 = (if is_dst then be1\<lparr>timestamp := \<lparr>tv_sec = 0, tv_usec = 0\<rparr>\<rparr> else be1);
     let buffer3 = buffer2\<lparr>b_timestamp := timestamp be2\<rparr>;
     (r, k') \<leftarrow> ioctl_retry video_fd (VIDIOC_QBUF buffer3) k;
     Some (case r of Ioctl_err err \<Rightarrow> (- err, be2, k') | _ \<Rightarrow> (0, be2, k'))
   }"


text \<open>
  \<^verbatim>\<open>mediabufs_start_request\<close>. \<open>start_request_fail1\<close> is the code at the label \<^verbatim>\<open>fail1\<close>;
  \<open>start_request_queue_dst\<close>, \<open>start_request_queue_src\<close> and \<open>start_request_arm_poll\<close> are
  the three blocks of the body, each returning whether the code goes on. The function
  returns the status and the new contents of \<^verbatim>\<open>*pmreq\<close> and \<^verbatim>\<open>*psrc_be\<close>.
\<close>

definition start_request_fail1 ::
  "addr option \<Rightarrow> addr option \<Rightarrow> addr option \<Rightarrow> world \<Rightarrow> (MediaBufsStatus \<times> world) option" where
  "start_request_fail1 mreq src_be dst_be w = do {
     (rv, mreq', w1) \<leftarrow> media_request_abort mreq w;
     w2 \<leftarrow> (case src_be of
              None \<Rightarrow> Some w1
            | Some s \<Rightarrow> do {
                mbc \<leftarrow> ctl w1;
                (bp, h) \<leftarrow> queue_put_free (src mbc) s (srcs w1);
                Some (w1\<lparr>ctl := Some (mbc\<lparr>src := bp\<rparr>), srcs := h\<rparr>)
              });
     w3 \<leftarrow> (case dst_be of None \<Rightarrow> Some w2 | Some d \<Rightarrow> qe_dst_done d w2);
     Some (MEDIABUFS_ERROR_OPERATION_FAILED, w3)
   }"

definition start_request_queue_dst :: "addr option \<Rightarrow> world \<Rightarrow> (bool \<times> world) option" where
  "start_request_queue_dst dst_be w =
     (case dst_be of
        None \<Rightarrow> Some (True, w)
      | Some d \<Rightarrow> do {
          (already, w1) \<leftarrow> qe_dst_waiting d w;
          if already then Some (False, w1)
          else do {
            h \<leftarrow> upd (dsts w1) d (\<lambda>e. e\<lparr>timestamp := \<lparr>tv_sec = 0, tv_usec = 0\<rparr>\<rparr>);
            mbc \<leftarrow> ctl w1;
            e \<leftarrow> h d;
            (rc, e', k') \<leftarrow> qe_v4l2_queue e (vfd mbc) None (dst_fmt mbc) True False (kern w1);
            let w2 = w1\<lparr>dsts := h(d \<mapsto> e'), kern := k'\<rparr>;
            if rc \<noteq> 0 then Some (False, w2)
            else do {
              (bp, h') \<leftarrow> queue_put_inuse (dst mbc) (Some d) (dsts w2);
              Some (True, w2\<lparr>ctl := Some (mbc\<lparr>dst := bp\<rparr>), dsts := h'\<rparr>)
            }
          }
        })"

definition start_request_queue_src :: "addr option \<Rightarrow> addr \<Rightarrow> bool \<Rightarrow> world \<Rightarrow> (bool \<times> world) option" where
  "start_request_queue_src mreq s is_final w = do {
     mbc \<leftarrow> ctl w;
     e \<leftarrow> srcs w s;
     mreq_fd \<leftarrow> (case mreq of None \<Rightarrow> Some None | Some r \<Rightarrow> map_option Some (media_request_fd r w));
     (rc, e', k') \<leftarrow> qe_v4l2_queue e (vfd mbc) mreq_fd (src_fmt mbc) False (\<not> is_final) (kern w);
     let w1 = w\<lparr>srcs := (srcs w)(s \<mapsto> e'), kern := k'\<rparr>;
     if rc \<noteq> 0 then Some (False, w1)
     else do {
       (bp, h') \<leftarrow> queue_put_inuse (src mbc) (Some s) (srcs w1);
       Some (True, w1\<lparr>ctl := Some (mbc\<lparr>src := bp\<rparr>), srcs := h'\<rparr>)
     }
   }"

definition start_request_arm_poll :: "world \<Rightarrow> world option" where
  "start_request_arm_poll w = do {
     mbc \<leftarrow> ctl w;
     if \<not> polling mbc \<and> mediabufs_wants_poll mbc
     then Some (pollqueue_add_task Pt_mediabufs 2000
                  (w\<lparr>ctl := Some (mediabufs_ctl_ref (mbc\<lparr>polling := True\<rparr>))\<rparr>))
     else Some w
   }"

definition mediabufs_start_request ::
  "addr option \<Rightarrow> addr option \<Rightarrow> addr option \<Rightarrow> bool \<Rightarrow> world \<Rightarrow>
     (MediaBufsStatus \<times> addr option \<times> addr option \<times> world) option" where
  "mediabufs_start_request pmreq psrc_be dst_be is_final w =
     (let mreq = pmreq; src_be = psrc_be;
          pmreq' = None; psrc_be' = None
      in map_option (\<lambda>(st, w'). (st, pmreq', psrc_be', w'))
           (case src_be of
              None \<Rightarrow> start_request_fail1 mreq src_be dst_be w
            | Some s \<Rightarrow> do {
                (dst_ok, w1) \<leftarrow> start_request_queue_dst dst_be w;
                if \<not> dst_ok then start_request_fail1 mreq src_be dst_be w1
                else do {
                  (src_ok, w2) \<leftarrow> start_request_queue_src mreq s is_final w1;
                  if \<not> src_ok then start_request_fail1 mreq src_be dst_be w2
                  else do {
                    w3 \<leftarrow> start_request_arm_poll w2;
                    req \<leftarrow> mreq;
                    (rv, w4) \<leftarrow> media_request_start req w3;
                    Some (if rv \<noteq> 0 then MEDIABUFS_ERROR_OPERATION_FAILED
                          else MEDIABUFS_STATUS_SUCCESS, w4)
                  }
                }
              }))"

definition fmt_set ::
  "int \<Rightarrow> uint \<Rightarrow> uint \<Rightarrow> uint \<Rightarrow> uint \<Rightarrow> size_t \<Rightarrow> kernel \<Rightarrow>
     (MediaBufsStatus \<times> v4l2_format \<times> kernel) option" where
  "fmt_set fd buftype pixfmt width height bufsize k = do {
     let fmt0 = \<lparr>fmt_type = buftype, fmt_pix = zero_pix, fmt_pix_mp = zero_pix_mp\<rparr>;
     let fmt1 =
       (if V4L2_TYPE_IS_MULTIPLANAR buftype then
          (let m = (fmt_pix_mp fmt0)\<lparr>mp_width := width, mp_height := height, mp_pixelformat := pixfmt\<rparr>
           in fmt0\<lparr>fmt_pix_mp :=
                 (if bufsize \<noteq> 0
                  then m\<lparr>mp_num_planes := 1,
                         mp_plane_sizeimage := (mp_plane_sizeimage m)[0 := ucast bufsize]\<rparr>
                  else m)\<rparr>)
        else
          fmt0\<lparr>fmt_pix := \<lparr>pix_width = width, pix_height = height, pix_pixelformat = pixfmt,
                            pix_sizeimage = ucast bufsize\<rparr>\<rparr>);
     (r, k') \<leftarrow> ioctl_retry fd (VIDIOC_S_FMT fmt1) k;
     (case r of
        Ioctl_err err \<Rightarrow> Some (MEDIABUFS_ERROR_OPERATION_FAILED, fmt1, k')
      | _ \<Rightarrow>
          (let fmt2 = (case r of Ioctl_fmt f \<Rightarrow> f | _ \<Rightarrow> fmt1) in
           if V4L2_TYPE_IS_MULTIPLANAR buftype then
             (if mp_width (fmt_pix_mp fmt2) < width \<or>
                 mp_height (fmt_pix_mp fmt2) < height \<or>
                 mp_pixelformat (fmt_pix_mp fmt2) \<noteq> pixfmt
              then Some (MEDIABUFS_ERROR_UNSUPPORTED_BUFFERTYPE, fmt2, k')
              else Some (MEDIABUFS_STATUS_SUCCESS, fmt2, k'))
           else
             (if pix_width (fmt_pix fmt2) < width \<or>
                 pix_height (fmt_pix fmt2) < height \<or>
                 pix_pixelformat (fmt_pix fmt2) \<noteq> pixfmt
              then Some (MEDIABUFS_ERROR_UNSUPPORTED_BUFFERTYPE, fmt2, k')
              else Some (MEDIABUFS_STATUS_SUCCESS, fmt2, k'))))
   }"

definition mediabufs_src_fmt_set ::
  "uint \<Rightarrow> uint \<Rightarrow> uint \<Rightarrow> uint \<Rightarrow> size_t \<Rightarrow> world \<Rightarrow> (MediaBufsStatus \<times> world) option" where
  "mediabufs_src_fmt_set buf_type pixfmt width height bufsize w = do {
     mbc \<leftarrow> ctl w;
     (rv, fmt, k') \<leftarrow> fmt_set (vfd mbc) buf_type pixfmt width height bufsize (kern w);
     Some (rv, w\<lparr>ctl := Some (mbc\<lparr>src_fmt := fmt\<rparr>), kern := k'\<rparr>)
   }"

definition mediabufs_stream_on :: "world \<Rightarrow> (MediaBufsStatus \<times> world) option" where
  "mediabufs_stream_on w = do {
     mbc \<leftarrow> ctl w;
     if stream_on mbc then Some (MEDIABUFS_STATUS_SUCCESS, w)
     else do {
       (rc1, k1) \<leftarrow> set_stream (vfd mbc) (fmt_type (src_fmt mbc)) True (kern w);
       if rc1 < 0 then Some (MEDIABUFS_ERROR_OPERATION_FAILED, w\<lparr>kern := k1\<rparr>)
       else do {
         (rc2, k2) \<leftarrow> set_stream (vfd mbc) (fmt_type (dst_fmt mbc)) True k1;
         if rc2 < 0 then do {
           (rc3, k3) \<leftarrow> set_stream (vfd mbc) (fmt_type (src_fmt mbc)) False k2;
           Some (MEDIABUFS_ERROR_OPERATION_FAILED, w\<lparr>kern := k3\<rparr>)
         }
         else Some (MEDIABUFS_STATUS_SUCCESS, w\<lparr>ctl := Some (mbc\<lparr>stream_on := True\<rparr>), kern := k2\<rparr>)
       }
     }
   }"

definition mediabufs_stream_off :: "world \<Rightarrow> (MediaBufsStatus \<times> world) option" where
  "mediabufs_stream_off w = do {
     mbc \<leftarrow> ctl w;
     let status0 = MEDIABUFS_STATUS_SUCCESS;
     if \<not> stream_on mbc then Some (MEDIABUFS_STATUS_SUCCESS, w)
     else do {
       (rc1, k1) \<leftarrow> set_stream (vfd mbc) (fmt_type (src_fmt mbc)) False (kern w);
       let status1 = (if rc1 < 0 then MEDIABUFS_ERROR_OPERATION_FAILED else status0);
       (rc2, k2) \<leftarrow> set_stream (vfd mbc) (fmt_type (dst_fmt mbc)) False k1;
       let status2 = (if rc2 < 0 then MEDIABUFS_ERROR_OPERATION_FAILED else status1);
       Some (status2, w\<lparr>ctl := Some (mbc\<lparr>stream_on := False\<rparr>), kern := k2\<rparr>)
     }
   }"

definition mediabufs_ctl_delete :: "world \<Rightarrow> world option" where
  "mediabufs_ctl_delete w = do {
     mbc0 \<leftarrow> ctl w;
     let w1 = w\<lparr>wlm_linked := False\<rparr>;
     let w2 = polltask_delete Pt_mediabufs w1;
     (st, w3) \<leftarrow> mediabufs_stream_off w2;
     mbc \<leftarrow> ctl w3;
     (rc1, k1) \<leftarrow> request_buffers (vfd mbc) (fmt_type (src_fmt mbc)) V4L2_MEMORY_MMAP 0 (kern w3);
     (rc2, k2) \<leftarrow> request_buffers (vfd mbc) (fmt_type (dst_fmt mbc)) V4L2_MEMORY_MMAP 0 k1;
     Some (w3\<lparr>ctl := None, kern := k2\<rparr>)
   }"


text \<open>
  Modelled from the spec: locking a weak link yields the owner while the holder has a
  client handle and the master has not been broken.
\<close>

definition ff_weak_link_lock :: "wl_client option \<Rightarrow> world \<Rightarrow> bool" where
  "ff_weak_link_lock c w = (c \<noteq> None \<and> wlm_linked w)"

definition qent_dst_delete :: "addr option \<Rightarrow> world \<Rightarrow> world option" where
  "qent_dst_delete be_dst w =
     (case be_dst of
        None \<Rightarrow> Some w
      | Some a \<Rightarrow> do { e \<leftarrow> dsts w a; Some (w\<lparr>dsts := (dsts w)(a := None)\<rparr>) })"

definition qent_dst_free :: "addr option \<Rightarrow> world \<Rightarrow> (addr option \<times> world) option" where
  "qent_dst_free pbe_dst w =
     (case pbe_dst of
        None \<Rightarrow> Some (None, w)
      | Some be_dst \<Rightarrow> do {
          e \<leftarrow> dsts w be_dst;
          if ff_weak_link_lock (mbc_wl e) w then do {
            mbc \<leftarrow> ctl w;
            (bp, h) \<leftarrow> queue_put_free (dst mbc) be_dst (dsts w);
            Some (None, w\<lparr>ctl := Some (mbc\<lparr>dst := bp\<rparr>), dsts := h\<rparr>)
          }
          else do { w' \<leftarrow> qent_dst_delete (Some be_dst) w; Some (None, w') }
        })"

definition qent_dst_dmabuf :: "qent_dst \<Rightarrow> uint \<Rightarrow> dmabuf_h option" where
  "qent_dst_dmabuf be_dst plane =
     (if unat plane \<ge> VIDEO_MAX_PLANES then None else dh be_dst ! unat plane)"







section \<open>Notions used in the statements\<close>

text \<open>The admissible size classes: the numbers \<open>3 \<cdot> 2\<^sup>n\<close> and \<open>4 \<cdot> 2\<^sup>n\<close>.\<close>

definition is_bucket :: "nat \<Rightarrow> bool" where
  "is_bucket b = (\<exists>n\<le>b. b = 3 * 2 ^ n \<or> b = 4 * 2 ^ n)"

text \<open>
  The halving steps of \<^verbatim>\<open>log2_size\<close> on natural numbers and on words, used to relate
  the function to the floor of the binary logarithm.
\<close>

definition lstep :: "nat \<Rightarrow> nat \<times> nat \<Rightarrow> nat \<times> nat" where
  "lstep k p = (if 2 ^ k \<le> snd p then (fst p + k, snd p div 2 ^ k) else p)"

definition log2n :: "nat \<Rightarrow> nat" where
  "log2n x = (let p = lstep 2 (lstep 4 (lstep 8 (lstep 16 (0, x))))
              in if 2 \<le> snd p then fst p + 1 else fst p)"

definition wstep :: "nat \<Rightarrow> uint \<times> size_t \<Rightarrow> uint \<times> size_t" where
  "wstep k p = (if 2 ^ k \<le> unat (snd p) then (fst p + of_nat k, drop_bit k (snd p)) else p)"

text \<open>
  A doubly linked list in a heap. \<open>dlseg h p first xs final nx\<close>: following the next
  pointers from \<open>first\<close> visits the addresses \<open>xs\<close> and arrives at \<open>nx\<close>; the previous
  pointer of each node is its predecessor, the one of the first node is \<open>p\<close>; \<open>final\<close> is
  the last node (\<open>p\<close> when there is none). \<open>dll\<close> is a whole list, without repetition.
\<close>

fun dlseg ::
  "('a qent_base_scheme) heap \<Rightarrow> addr option \<Rightarrow> addr option \<Rightarrow> addr list \<Rightarrow> addr option \<Rightarrow> addr option \<Rightarrow> bool" where
  "dlseg h p first [] final nx = (first = nx \<and> final = p)"
| "dlseg h p first (a # as) final nx =
     (first = Some a \<and>
      (case h a of None \<Rightarrow> False
       | Some e \<Rightarrow> qe_prev e = p \<and> dlseg h (Some a) (qe_next e) as final nx))"

definition dll :: "('a qent_base_scheme) heap \<Rightarrow> addr option \<Rightarrow> addr list \<Rightarrow> addr option \<Rightarrow> bool" where
  "dll h first xs final = (dlseg h None first xs final None \<and> distinct xs)"

definition links :: "'a qent_base_scheme \<Rightarrow> addr option \<times> addr option" where
  "links e = (qe_next e, qe_prev e)"

definition unlink :: "('a qent_base_scheme) heap \<Rightarrow> addr \<Rightarrow> 'a qent_base_scheme \<Rightarrow> ('a qent_base_scheme) heap" where
  "unlink h a e =
    (let h1 = (case qe_next e of
                 Some n \<Rightarrow> (case h n of None \<Rightarrow> h | Some ne \<Rightarrow> h(n \<mapsto> ne\<lparr>qe_prev := qe_prev e\<rparr>))
               | None \<Rightarrow> h);
         h2 = (case qe_prev e of
                 Some p \<Rightarrow> (case h1 p of None \<Rightarrow> h1 | Some pe \<Rightarrow> h1(p \<mapsto> pe\<lparr>qe_next := qe_next e\<rparr>))
               | None \<Rightarrow> h1)
     in h2(a \<mapsto> e\<lparr>qe_next := None, qe_prev := None\<rparr>))"

definition payload :: "'a qent_base_scheme \<Rightarrow> 'a qent_base_scheme" where
  "payload e = e\<lparr>qe_next := None, qe_prev := None\<rparr>"

definition primary_fd :: "('a qent_base_scheme) heap \<Rightarrow> addr \<Rightarrow> int option" where
  "primary_fd h a =
     (case h a of None \<Rightarrow> None
      | Some e \<Rightarrow> (case dh e of [] \<Rightarrow> None | d0 # _ \<Rightarrow> Some (dmabuf_fd d0)))"

definition inuse_list :: "buf_pool \<Rightarrow> ('a qent_base_scheme) heap \<Rightarrow> addr list \<Rightarrow> bool" where
  "inuse_list bp h xs = dll h (inuse_head bp) xs (inuse_tail bp)"

definition free_list :: "buf_pool \<Rightarrow> ('a qent_base_scheme) heap \<Rightarrow> addr list \<Rightarrow> bool" where
  "free_list bp h xs = dll h (free_head bp) xs (free_tail bp)"

definition entry_clean :: "('a qent_base_scheme) heap \<Rightarrow> addr \<Rightarrow> bool" where
  "entry_clean h a =
     (case h a of None \<Rightarrow> False
      | Some e \<Rightarrow> timestamp e = \<lparr>tv_sec = 0, tv_usec = 0\<rparr> \<and>
                  (\<forall>d\<in>set (lead_planes (dh e)). dh_len d = 0))"

text \<open>
  \<open>lens_zero\<close>: every populated slot of the list holds a handle with the recorded length 0.
  \<open>behind_gap\<close> are the slots from the first empty one on, which a loop over the leading
  populated slots does not visit. An entry is zeroed when its timestamp is zero and all its
  populated plane handles have the recorded length 0.
\<close>

definition lens_zero :: "dmabuf_h option list \<Rightarrow> bool" where
  "lens_zero ds = list_all (\<lambda>x. case x of None \<Rightarrow> True | Some d \<Rightarrow> dh_len d = 0) ds"

definition behind_gap :: "dmabuf_h option list \<Rightarrow> dmabuf_h option list" where
  "behind_gap ds = dropWhile (\<lambda>x. x \<noteq> None) ds"


text \<open>Concrete entries and pools for the examples.\<close>

definition ex_planes :: "int \<Rightarrow> dmabuf_h option list" where
  "ex_planes fd =
     [Some \<lparr>dh_fd = fd, dh_size = 4096, dh_len = 100\<rparr>, None, None, None, None, None, None, None]"

definition ex_src :: "int \<Rightarrow> addr option \<Rightarrow> addr option \<Rightarrow> qent_src" where
  "ex_src fd n p =
     \<lparr>qe_next = n, qe_prev = p, status = QENT_NEW, index = 0, dh = ex_planes fd,
      timestamp = \<lparr>tv_sec = 1, tv_usec = 2\<rparr>, fixed_size = 0\<rparr>"

definition ex_pool :: "addr option \<Rightarrow> addr option \<Rightarrow> addr option \<Rightarrow> addr option \<Rightarrow> buf_pool" where
  "ex_pool fh ft ih it =
     \<lparr>free_sem = 0, free_head = fh, free_tail = ft, inuse_head = ih, inuse_tail = it\<rparr>"


definition ex_dst :: "int \<Rightarrow> bool \<Rightarrow> qent_dst" where
  "ex_dst fd wt =
     \<lparr>qe_next = None, qe_prev = None, status = QENT_NEW, index = 0, dh = ex_planes fd,
      timestamp = \<lparr>tv_sec = 1, tv_usec = 2\<rparr>, waiting = wt, mbc_wl = Some Wl_client\<rparr>"


text \<open>
  The free chain of the request pool: following the links from the head visits the
  addresses of the list and ends in NULL.
\<close>

fun chain :: "media_request heap \<Rightarrow> addr option \<Rightarrow> addr list \<Rightarrow> bool" where
  "chain h p [] = (p = None)"
| "chain h p (a # as) =
     (p = Some a \<and> (case h a of None \<Rightarrow> False | Some r \<Rightarrow> chain h (req_next r) as))"

text \<open>
  A history of the pool: acquisitions, submissions and reclamations, the latter by a poll
  completion (the callback \<^verbatim>\<open>media_request_done\<close>) or by \<^verbatim>\<open>media_request_abort\<close>. The
  set of the handles in flight is kept beside the state: an acquisition that returns a
  handle puts it in flight, and a reclamation takes its handle out. The functions
  themselves do not look whether the handle they are given is in flight. A history in
  which a call does not return has no result.
\<close>

datatype pool_event = Ev_get | Ev_start addr | Ev_done addr | Ev_abort addr

fun pool_step :: "pool_event \<Rightarrow> world \<times> addr set \<Rightarrow> (world \<times> addr set) option" where
  "pool_step Ev_get (w, fl) =
     (case media_request_get w of
        None \<Rightarrow> None
      | Some (None, w') \<Rightarrow> Some (w', fl)
      | Some (Some r, w') \<Rightarrow> Some (w', insert r fl))"
| "pool_step (Ev_start r) (w, fl) =
     map_option (\<lambda>(rv, w'). (w', fl)) (media_request_start r w)"
| "pool_step (Ev_done r) (w, fl) =
     map_option (\<lambda>w'. (w', fl - {r})) (media_request_done r w)"
| "pool_step (Ev_abort r) (w, fl) =
     map_option (\<lambda>(rv, preq, w'). (w', fl - {r})) (media_request_abort (Some r) w)"

fun pool_run :: "pool_event list \<Rightarrow> world \<times> addr set \<Rightarrow> (world \<times> addr set) option" where
  "pool_run [] s = Some s"
| "pool_run (ev # evs) s = (case pool_step ev s of None \<Rightarrow> None | Some s' \<Rightarrow> pool_run evs s')"

text \<open>
  A history reclaims in flight when each of its reclamations names a handle that is in
  flight at that moment: no handle is reclaimed twice, and none that was not acquired.
\<close>

fun reclaims_in_flight :: "pool_event list \<Rightarrow> world \<times> addr set \<Rightarrow> bool" where
  "reclaims_in_flight [] s = True"
| "reclaims_in_flight (ev # evs) s =
     ((case ev of Ev_done r \<Rightarrow> r \<in> snd s | Ev_abort r \<Rightarrow> r \<in> snd s | _ \<Rightarrow> True) \<and>
      (case pool_step ev s of None \<Rightarrow> True | Some s' \<Rightarrow> reclaims_in_flight evs s'))"

definition pool_inv :: "nat \<Rightarrow> world \<Rightarrow> addr list \<Rightarrow> addr set \<Rightarrow> bool" where
  "pool_inv n w fs fl =
     (chain (reqs w) (free_reqs (mpool w)) fs \<and> distinct fs \<and> set fs \<inter> fl = {} \<and>
      set fs \<union> fl = {0..<n} \<and> sem (mpool w) = length fs \<and> (\<forall>a<n. reqs w a \<noteq> None))"

definition ex_kernel :: "ioctl_res list \<Rightarrow> kernel" where
  "ex_kernel rs = \<lparr>script = rs, trace = []\<rparr>"

definition ex_pool_world :: "ioctl_res list \<Rightarrow> world" where
  "ex_pool_world rs =
     \<lparr>ctl = None, wlm_linked = False, srcs = Map.empty, dsts = Map.empty,
      mpool = \<lparr>mp_fd = 3, sem = 2, free_reqs = Some 1\<rparr>,
      reqs = [0 \<mapsto> \<lparr>req_next = None, req_fd = 5\<rparr>, 1 \<mapsto> \<lparr>req_next = Some 0, req_fd = 6\<rparr>],
      kern = ex_kernel rs, pollq = []\<rparr>"

text \<open>
  An \<^verbatim>\<open>ioctl\<close> has failed for its caller when it set a positive \<^verbatim>\<open>errno\<close>. The driver has
  granted a format when width and height are at least the requested ones and the pixel
  format is the requested one, in the member that the buffer type selects.
\<close>

definition ioctl_failed :: "ioctl_res \<Rightarrow> bool" where
  "ioctl_failed r = (case r of Ioctl_err errno \<Rightarrow> 0 < errno | _ \<Rightarrow> False)"

definition fmt_granted :: "uint \<Rightarrow> v4l2_format \<Rightarrow> uint \<Rightarrow> uint \<Rightarrow> uint \<Rightarrow> bool" where
  "fmt_granted buftype fmt pixfmt width height =
     (if V4L2_TYPE_IS_MULTIPLANAR buftype
      then width \<le> mp_width (fmt_pix_mp fmt) \<and> height \<le> mp_height (fmt_pix_mp fmt) \<and>
           mp_pixelformat (fmt_pix_mp fmt) = pixfmt
      else width \<le> pix_width (fmt_pix fmt) \<and> height \<le> pix_height (fmt_pix fmt) \<and>
           pix_pixelformat (fmt_pix fmt) = pixfmt)"

text \<open>
  A controller for the examples: multi-planar formats, nothing queued, not streaming; and a
  state with this controller, one source entry and one destination entry in the hands of
  the caller, and one request that has been acquired from its pool.
\<close>

definition ex_fmt_mp :: "uint \<Rightarrow> uint \<Rightarrow> uint \<Rightarrow> uint \<Rightarrow> v4l2_format" where
  "ex_fmt_mp t pixfmt width height =
     \<lparr>fmt_type = t, fmt_pix = zero_pix,
      fmt_pix_mp = zero_pix_mp\<lparr>mp_width := width, mp_height := height, mp_pixelformat := pixfmt\<rparr>\<rparr>"

definition ex_ctl :: mediabufs_ctl where
  "ex_ctl =
     \<lparr>ref_count = 0, vfd = 4, stream_on = False, polling = False,
      src = ex_pool None None None None, dst = ex_pool None None None None,
      src_fmt = ex_fmt_mp V4L2_BUF_TYPE_VIDEO_OUTPUT_MPLANE 0 0 0,
      dst_fmt = ex_fmt_mp V4L2_BUF_TYPE_VIDEO_CAPTURE_MPLANE 0 0 0\<rparr>"

definition ex_world :: "ioctl_res list \<Rightarrow> world" where
  "ex_world rs =
     \<lparr>ctl = Some ex_ctl, wlm_linked = True,
      srcs = [1 \<mapsto> ex_src 10 None None], dsts = [1 \<mapsto> ex_dst 20 False],
      mpool = \<lparr>mp_fd = 3, sem = 0, free_reqs = None\<rparr>,
      reqs = [0 \<mapsto> \<lparr>req_next = None, req_fd = 5\<rparr>],
      kern = ex_kernel rs, pollq = []\<rparr>"


text \<open>The format structure that \<^verbatim>\<open>fmt_set\<close> hands to the driver.\<close>

definition fmt_request :: "uint \<Rightarrow> uint \<Rightarrow> uint \<Rightarrow> uint \<Rightarrow> size_t \<Rightarrow> v4l2_format" where
  "fmt_request buftype pixfmt width height bufsize =
     (if V4L2_TYPE_IS_MULTIPLANAR buftype then
        \<lparr>fmt_type = buftype, fmt_pix = zero_pix,
         fmt_pix_mp =
           (if bufsize \<noteq> 0
            then zero_pix_mp\<lparr>mp_width := width, mp_height := height, mp_pixelformat := pixfmt,
                   mp_num_planes := 1,
                   mp_plane_sizeimage := (mp_plane_sizeimage zero_pix_mp)[0 := ucast bufsize]\<rparr>
            else zero_pix_mp\<lparr>mp_width := width, mp_height := height, mp_pixelformat := pixfmt\<rparr>)\<rparr>
      else
        \<lparr>fmt_type = buftype,
         fmt_pix = \<lparr>pix_width = width, pix_height = height, pix_pixelformat = pixfmt,
                    pix_sizeimage = ucast bufsize\<rparr>,
         fmt_pix_mp = zero_pix_mp\<rparr>)"









section \<open>Properties of the size classes\<close>

lemma and_not_mask_zero: "(x AND NOT (mask k) = 0) = (unat x < 2 ^ k)" for x :: size_t
proof -
  have "(x AND NOT (mask k) = 0) = (take_bit k x = x)"
    by (auto simp add: bit_eq_iff bit_simps)
  also have "\<dots> = (unat x < 2 ^ k)"
    by (metis take_bit_nat_eq_self_iff unsigned_take_bit_eq word_eq_iff_unsigned)
  finally show ?thesis .
qed

lemma unat_drop: "unat (drop_bit k x) = unat x div 2 ^ k" for x :: size_t
  by (metis drop_bit_eq_div unat_drop_bit_eq)

lemma test_bits:
  "(x AND NOT 0xffff \<noteq> 0) = (2 ^ 16 \<le> unat x)"
  "(x AND NOT 0xff \<noteq> 0) = (2 ^ 8 \<le> unat x)"
  "(x AND NOT 0xf \<noteq> 0) = (2 ^ 4 \<le> unat x)"
  "(x AND NOT 3 \<noteq> 0) = (2 ^ 2 \<le> unat x)"
  "(x AND NOT 1 \<noteq> 0) = (2 ^ 1 \<le> unat x)" for x :: size_t
  using and_not_mask_zero [of x 16] and_not_mask_zero [of x 8] and_not_mask_zero [of x 4]
    and_not_mask_zero [of x 2] and_not_mask_zero [of x 1]
  by (simp_all add: mask_eq_exp_minus_1 not_less)

lemma log2_size_wstep:
  "log2_size x = (let p = wstep 2 (wstep 4 (wstep 8 (wstep 16 (0, x))))
                  in if 2 \<le> unat (snd p) then fst p + 1 else fst p)"
proof -
  have s16: "(if x AND NOT 0xffff \<noteq> 0 then (16, drop_bit 16 x) else (0, x)) = wstep 16 (0, x)"
    unfolding test_bits wstep_def by simp
  have s8: "(if y AND NOT 0xff \<noteq> 0 then (n + 8, drop_bit 8 y) else (n, y)) = wstep 8 (n, y)" for n y
    unfolding test_bits wstep_def by simp
  have s4: "(if y AND NOT 0xf \<noteq> 0 then (n + 4, drop_bit 4 y) else (n, y)) = wstep 4 (n, y)" for n y
    unfolding test_bits wstep_def by simp
  have s2: "(if y AND NOT 3 \<noteq> 0 then (n + 2, drop_bit 2 y) else (n, y)) = wstep 2 (n, y)" for n y
    unfolding test_bits wstep_def by simp
  have s1: "(y AND NOT 1 \<noteq> 0) = (2 \<le> unat y)" for y :: size_t
    unfolding test_bits by simp
  show ?thesis
    unfolding log2_size_def s16
    apply (cases "wstep 16 (0, x)")
    apply (simp only: Let_def prod.case s8)
    apply (cases "wstep 8 (wstep 16 (0, x))")
    apply (simp only: Let_def prod.case s4)
    apply (cases "wstep 4 (wstep 8 (wstep 16 (0, x)))")
    apply (simp only: Let_def prod.case s2)
    apply (cases "wstep 2 (wstep 4 (wstep 8 (wstep 16 (0, x))))")
    apply (simp only: Let_def prod.case s1 fst_conv snd_conv)
    done
qed

lemma wstep_lstep:
  assumes "fst p = of_nat (fst q)" "unat (snd p) = snd q"
  shows "fst (wstep k p) = of_nat (fst (lstep k q)) \<and> unat (snd (wstep k p)) = snd (lstep k q)"
  using assms by (simp add: wstep_def lstep_def unat_drop)

lemma log2_size_nat: "log2_size x = of_nat (log2n (unat x))"
proof -
  let ?w1 = "wstep 16 (0, x)" and ?l1 = "lstep 16 (0, unat x)"
  let ?w2 = "wstep 8 ?w1" and ?l2 = "lstep 8 ?l1"
  let ?w3 = "wstep 4 ?w2" and ?l3 = "lstep 4 ?l2"
  let ?w4 = "wstep 2 ?w3" and ?l4 = "lstep 2 ?l3"
  have r1: "fst ?w1 = of_nat (fst ?l1) \<and> unat (snd ?w1) = snd ?l1"
    by (rule wstep_lstep) simp_all
  have r2: "fst ?w2 = of_nat (fst ?l2) \<and> unat (snd ?w2) = snd ?l2"
    by (rule wstep_lstep) (use r1 in simp_all)
  have r3: "fst ?w3 = of_nat (fst ?l3) \<and> unat (snd ?w3) = snd ?l3"
    by (rule wstep_lstep) (use r2 in simp_all)
  have r4: "fst ?w4 = of_nat (fst ?l4) \<and> unat (snd ?w4) = snd ?l4"
    by (rule wstep_lstep) (use r3 in simp_all)
  show ?thesis
    unfolding log2_size_wstep log2n_def Let_def using r4 by simp
qed

lemma lstep_inv:
  assumes "snd p * 2 ^ fst p \<le> X" "X < (snd p + 1) * 2 ^ fst p" "snd p < 2 ^ (2 * k)"
    "0 < snd p"
  shows "snd (lstep k p) * 2 ^ fst (lstep k p) \<le> X \<and>
         X < (snd (lstep k p) + 1) * 2 ^ fst (lstep k p) \<and> snd (lstep k p) < 2 ^ k
         \<and> fst (lstep k p) \<le> fst p + k \<and> 0 < snd (lstep k p)"
proof (cases "2 ^ k \<le> snd p")
  case False
  then show ?thesis using assms by (simp add: lstep_def)
next
  case True
  obtain n x where p: "p = (n, x)" by (cases p)
  let ?q = "x div 2 ^ k"
  have d: "?q * 2 ^ k \<le> x" "x < (?q + 1) * 2 ^ k"
    by (simp_all add: div_times_less_eq_dividend dividend_less_div_times)
  have 1: "?q * 2 ^ (n + k) \<le> X"
  proof -
    have "?q * 2 ^ (n + k) = (?q * 2 ^ k) * 2 ^ n" by (simp add: power_add)
    also have "\<dots> \<le> x * 2 ^ n" using d(1) by (rule mult_le_mono1)
    finally show ?thesis using assms(1) p by simp
  qed
  have 2: "X < (?q + 1) * 2 ^ (n + k)"
  proof -
    have "x + 1 \<le> (?q + 1) * 2 ^ k" using d(2) by simp
    then have "(x + 1) * 2 ^ n \<le> ((?q + 1) * 2 ^ k) * 2 ^ n" by (rule mult_le_mono1)
    also have "\<dots> = (?q + 1) * 2 ^ (n + k)" by (simp add: power_add algebra_simps)
    finally show ?thesis using assms(2) p by simp
  qed
  have 3: "?q < 2 ^ k"
    using assms(3) p by (simp add: less_mult_imp_div_less power2_eq_square power_mult mult_2 power_add)
  have 4: "0 < ?q" using True p by (simp add: div_greater_zero_iff)
  show ?thesis using True 1 2 3 4 p by (simp add: lstep_def)
qed

lemma log2n_floor:
  assumes "0 < X" "X < 2 ^ 32"
  shows "2 ^ log2n X \<le> X \<and> X < 2 * 2 ^ log2n X \<and> log2n X \<le> 31"
proof -
  let ?p0 = "(0::nat, X)"
  let ?p1 = "lstep 16 ?p0"
  let ?p2 = "lstep 8 ?p1"
  let ?p3 = "lstep 4 ?p2"
  let ?p4 = "lstep 2 ?p3"
  have i1: "snd ?p1 * 2 ^ fst ?p1 \<le> X \<and> X < (snd ?p1 + 1) * 2 ^ fst ?p1 \<and> snd ?p1 < 2 ^ 16 \<and> fst ?p1 \<le> fst ?p0 + 16 \<and> 0 < snd ?p1"
    by (rule lstep_inv) (use assms in simp_all)
  have i2: "snd ?p2 * 2 ^ fst ?p2 \<le> X \<and> X < (snd ?p2 + 1) * 2 ^ fst ?p2 \<and> snd ?p2 < 2 ^ 8 \<and> fst ?p2 \<le> fst ?p1 + 8 \<and> 0 < snd ?p2"
    by (rule lstep_inv) (use i1 in simp_all)
  have i3: "snd ?p3 * 2 ^ fst ?p3 \<le> X \<and> X < (snd ?p3 + 1) * 2 ^ fst ?p3 \<and> snd ?p3 < 2 ^ 4 \<and> fst ?p3 \<le> fst ?p2 + 4 \<and> 0 < snd ?p3"
    by (rule lstep_inv) (use i2 in simp_all)
  have i4: "snd ?p4 * 2 ^ fst ?p4 \<le> X \<and> X < (snd ?p4 + 1) * 2 ^ fst ?p4 \<and> snd ?p4 < 2 ^ 2 \<and> fst ?p4 \<le> fst ?p3 + 2 \<and> 0 < snd ?p4"
    by (rule lstep_inv) (use i3 in simp_all)
  have n: "fst ?p4 \<le> 30" using i1 i2 i3 i4 by simp
  obtain n x where p4: "?p4 = (n, x)" by (cases ?p4)
  have x: "x * 2 ^ n \<le> X" "X < (x + 1) * 2 ^ n" "x < 4" "n \<le> 30" "0 < x"
    using i4 n p4 by simp_all
  consider "x = 1" | "x = 2" | "x = 3" using x(5) x(3) by linarith
  then show ?thesis
  proof cases
    case 1 then show ?thesis using x p4 by (simp add: log2n_def)
  next
    case 2 then show ?thesis using x p4 by (simp add: log2n_def)
  next
    case 3 then show ?thesis using x p4 by (simp add: log2n_def)
  qed
qed


lemma unat_of_nat_eq: "n < 2 ^ LENGTH('a) \<Longrightarrow> unat (of_nat n :: 'a::len word) = n"
  by (simp add: unat_of_nat)

lemma bucket_forms: "is_bucket c = (\<exists>m. c = 3 * 2 ^ m \<or> c = 2 ^ (m + 2))"
proof
  assume "is_bucket c"
  then obtain n where "c = 3 * 2 ^ n \<or> c = 4 * 2 ^ n" by (auto simp: is_bucket_def)
  then show "\<exists>m. c = 3 * 2 ^ m \<or> c = 2 ^ (m + 2)" by (auto simp: power_add)
next
  assume "\<exists>m. c = 3 * 2 ^ m \<or> c = 2 ^ (m + 2)"
  then obtain m where m: "c = 3 * 2 ^ m \<or> c = 2 ^ (m + 2)" by blast
  have "m \<le> 2 ^ m" by (rule less_imp_le) (rule less_exp)
  then have "m \<le> 3 * 2 ^ m" "m \<le> 4 * 2 ^ m" by linarith+
  then show "is_bucket c" using m unfolding is_bucket_def
    by (intro exI [of _ m]) (auto simp: power_add)
qed

lemma no_bucket_low:
  assumes "is_bucket c" "2 * 2 ^ j \<le> s" "s < c"
  shows "3 * 2 ^ j \<le> c"
proof -
  from assms(1) obtain m where m: "c = 3 * 2 ^ m \<or> c = 2 ^ (m + 2)"
    by (auto simp: bucket_forms)
  have lt: "(2::nat) ^ Suc j < c" using assms by simp
  from m show ?thesis
  proof
    assume c: "c = 3 * 2 ^ m"
    have "j \<le> m"
    proof (rule ccontr)
      assume "\<not> j \<le> m"
      then have "Suc m \<le> j" by simp
      then have "(2::nat) ^ Suc m \<le> 2 ^ j" by (rule power_increasing) simp
      then have "c \<le> 2 ^ Suc j" using c by simp
      then show False using lt by simp
    qed
    then have "(2::nat) ^ j \<le> 2 ^ m" by (rule power_increasing) simp
    then show ?thesis using c by simp
  next
    assume c: "c = 2 ^ (m + 2)"
    have "Suc j < m + 2"
      using lt unfolding c by (rule power_less_imp_less_exp [rotated]) simp
    then have "Suc (Suc j) \<le> m + 2" by simp
    then have "(2::nat) ^ Suc (Suc j) \<le> 2 ^ (m + 2)" by (rule power_increasing) simp
    moreover have "3 * (2::nat) ^ j \<le> 2 ^ Suc (Suc j)" by simp
    ultimately show ?thesis unfolding c by (rule order_trans [rotated])
  qed
qed

lemma no_bucket_high:
  assumes "is_bucket c" "3 * 2 ^ j \<le> s" "s < c"
  shows "4 * 2 ^ j \<le> c"
proof -
  from assms(1) obtain m where m: "c = 3 * 2 ^ m \<or> c = 2 ^ (m + 2)"
    by (auto simp: bucket_forms)
  have lt: "3 * (2::nat) ^ j < c" using assms by simp
  from m show ?thesis
  proof
    assume c: "c = 3 * 2 ^ m"
    then have "(2::nat) ^ j < 2 ^ m" using lt by simp
    then have "j < m" by (rule power_less_imp_less_exp [rotated]) simp
    then have "Suc j \<le> m" by simp
    then have "(2::nat) ^ Suc j \<le> 2 ^ m" by (rule power_increasing) simp
    then show ?thesis using c by simp
  next
    assume c: "c = 2 ^ (m + 2)"
    have "(2::nat) ^ Suc j < 2 ^ (m + 2)" using lt unfolding c by simp
    then have "Suc j < m + 2" by (rule power_less_imp_less_exp [rotated]) simp
    then have "Suc (Suc j) \<le> m + 2" by simp
    then have "(2::nat) ^ Suc (Suc j) \<le> 2 ^ (m + 2)" by (rule power_increasing) simp
    moreover have "4 * (2::nat) ^ j \<le> 2 ^ Suc (Suc j)" by simp
    ultimately show ?thesis unfolding c by (rule order_trans [rotated])
  qed
qed

lemma round_up_size_small:
  assumes "unat x < 256"
  shows "round_up_size x = Some 768"
proof -
  have "x < 256" "\<not> 768 \<le> x" using assms by (simp_all add: word_less_nat_alt word_le_nat_alt)
  then show ?thesis by (simp add: round_up_size_def shl_int_def)
qed

lemma round_up_size_large:
  assumes "256 \<le> unat x" "unat x < 3 * 2 ^ 29"
  obtains j where "j \<le> 29" "2 * 2 ^ j \<le> unat x" "unat x < 4 * 2 ^ j"
    "3 * 2 ^ j \<le> unat x \<Longrightarrow> j \<le> 28"
    "round_up_size x = Some (of_nat (if 3 * 2 ^ j \<le> unat x then 4 * 2 ^ j else 3 * 2 ^ j))"
proof -
  let ?s = "unat x" and ?k = "log2n (unat x)"
  have fl: "2 ^ ?k \<le> ?s" "?s < 2 * 2 ^ ?k" "?k \<le> 31"
    using log2n_floor [of ?s] assms by simp_all
  have k8: "8 \<le> ?k"
  proof (rule ccontr)
    assume "\<not> 8 \<le> ?k"
    then have "Suc ?k \<le> 8" by simp
    then have "(2::nat) ^ Suc ?k \<le> 2 ^ 8" by (rule power_increasing) simp
    then show False using fl(2) assms(1) by simp
  qed
  have k30: "?k \<le> 30"
  proof (rule ccontr)
    assume "\<not> ?k \<le> 30"
    then have "31 \<le> ?k" by simp
    then have "(2::nat) ^ 31 \<le> 2 ^ ?k" by (rule power_increasing) simp
    then show False using fl(1) assms(2) by simp
  qed
  obtain j where j: "?k = Suc j" using k8 by (cases ?k) simp_all
  have j29: "j \<le> 29" using k30 j by simp
  have p29: "(2::nat) ^ j \<le> 2 ^ 29" using j29 by (rule power_increasing) simp
  have nx: "\<not> x < 256" using assms(1) by (simp add: word_less_nat_alt)
  have n: "log2_size x - 1 = of_nat j"
    by (simp add: log2_size_nat j)
  have un: "unat (of_nat j :: uint) = j"
    using j29 by (simp add: unat_of_nat_eq)
  have s3: "shl_int 3 (of_nat j) = Some (3 * 2 ^ j)"
  proof -
    have "(2::int) ^ j \<le> 2 ^ 29" using j29 by (intro power_increasing) simp_all
    then have "(3::int) * 2 ^ j \<le> 2147483647" by simp
    then show ?thesis using j29 by (simp add: shl_int_def un)
  qed
  have cmp: "((3::size_t) * 2 ^ j \<le> x) = (3 * 2 ^ j \<le> ?s)"
  proof -
    have u: "unat (of_nat (3 * 2 ^ j) :: size_t) = 3 * 2 ^ j"
      by (rule unat_of_nat_eq) (use p29 in simp)
    have "((3::size_t) * 2 ^ j) = of_nat (3 * 2 ^ j)" by simp
    then show ?thesis by (simp only: word_le_nat_alt u)
  qed
  have hi: "j \<le> 28" if "3 * 2 ^ j \<le> ?s"
  proof (rule ccontr)
    assume "\<not> j \<le> 28"
    then have "29 \<le> j" by simp
    then have "(2::nat) ^ 29 \<le> 2 ^ j" by (rule power_increasing) simp
    then show False using that assms(2) by simp
  qed
  have s4: "shl_int 4 (of_nat j) = Some (4 * 2 ^ j)" if "3 * 2 ^ j \<le> ?s"
  proof -
    have "(2::int) ^ j \<le> 2 ^ 28" using hi [OF that] by (intro power_increasing) simp_all
    then have "(4::int) * 2 ^ j \<le> 2147483647" by simp
    then show ?thesis using j29 by (simp add: shl_int_def un)
  qed
  have r: "round_up_size x = Some (of_nat (if 3 * 2 ^ j \<le> ?s then 4 * 2 ^ j else 3 * 2 ^ j))"
    using nx by (simp add: round_up_size_def n s3 cmp s4 Let_def)
  have lo: "2 * 2 ^ j \<le> ?s" using fl(1) j by simp
  have up: "?s < 4 * 2 ^ j" using fl(2) j by simp
  show thesis using that [OF j29 lo up hi r] by blast
qed

text \<open>
  Claim C1, as the code has it. For every requested size \<open>s\<close> below \<open>3 \<cdot> 2\<^sup>2\<^sup>9\<close> (beyond
  that the \<^verbatim>\<open>int\<close> shifts overflow), \<^verbatim>\<open>round_up_size\<close> returns a bucket \<open>b\<close> of the
  \<open>{3 \<cdot> 2\<^sup>n, 4 \<cdot> 2\<^sup>n}\<close> sequence with \<open>b > s\<close> and \<open>b \<ge> 256\<close>; for \<open>s \<ge> 256\<close> it is the
  smallest member of the sequence strictly above \<open>s\<close>, so 257 goes to 384 and 769 to 1024,
  and a size that is itself a bucket goes to the next one (768 to 1024).
\<close>

theorem round_up_size_next_bucket:
  assumes "unat s < 3 * 2 ^ 29"
  shows "\<exists>b. round_up_size s = Some b \<and> unat s < unat b \<and> 256 \<le> unat b \<and>
           is_bucket (unat b) \<and>
           (256 \<le> unat s \<longrightarrow> (\<forall>c. is_bucket c \<and> unat s < c \<longrightarrow> unat b \<le> c))"
proof (cases "unat s < 256")
  case True
  have "is_bucket 768" by (simp add: bucket_forms) (rule exI [of _ 8], simp)
  then show ?thesis using True by (simp add: round_up_size_small)
next
  case False
  let ?n = "unat s"
  have ge: "256 \<le> ?n" using False by simp
  from round_up_size_large [OF ge assms] obtain j where
    j: "j \<le> 29" "2 * 2 ^ j \<le> ?n" "?n < 4 * 2 ^ j" "3 * 2 ^ j \<le> ?n \<Longrightarrow> j \<le> 28"
    and r: "round_up_size s = Some (of_nat (if 3 * 2 ^ j \<le> ?n then 4 * 2 ^ j else 3 * 2 ^ j))"
    by blast
  show ?thesis
  proof (cases "3 * 2 ^ j \<le> ?n")
    case True
    then have "(2::nat) ^ j \<le> 2 ^ 28" using j(4) by (intro power_increasing) simp_all
    then have "4 * (2::nat) ^ j < 2 ^ LENGTH(64)" by simp
    then have u: "unat (of_nat (4 * 2 ^ j) :: size_t) = 4 * 2 ^ j"
      by (rule unat_of_nat_eq)
    have b: "is_bucket (4 * 2 ^ j)"
      unfolding bucket_forms by (intro exI [of _ j]) simp
    have m: "\<forall>c. is_bucket c \<and> ?n < c \<longrightarrow> 4 * 2 ^ j \<le> c"
      using no_bucket_high [OF _ True] by blast
    have r': "round_up_size s = Some (of_nat (4 * 2 ^ j))" using r True by simp
    have "round_up_size s = Some (of_nat (4 * 2 ^ j)) \<and> ?n < unat (of_nat (4 * 2 ^ j) :: size_t)
        \<and> 256 \<le> unat (of_nat (4 * 2 ^ j) :: size_t) \<and> is_bucket (unat (of_nat (4 * 2 ^ j) :: size_t))
        \<and> (256 \<le> ?n \<longrightarrow> (\<forall>c. is_bucket c \<and> ?n < c \<longrightarrow> unat (of_nat (4 * 2 ^ j) :: size_t) \<le> c))"
      unfolding u using r' j(3) ge b m by simp
    then show ?thesis by (rule exI)
  next
    case F: False
    have "(2::nat) ^ j \<le> 2 ^ 29" using j(1) by (intro power_increasing) simp_all
    then have "3 * (2::nat) ^ j < 2 ^ LENGTH(64)" by simp
    then have u: "unat (of_nat (3 * 2 ^ j) :: size_t) = 3 * 2 ^ j"
      by (rule unat_of_nat_eq)
    have b: "is_bucket (3 * 2 ^ j)"
      unfolding bucket_forms by blast
    have m: "\<forall>c. is_bucket c \<and> ?n < c \<longrightarrow> 3 * 2 ^ j \<le> c"
      using no_bucket_low [OF _ j(2)] by blast
    have r': "round_up_size s = Some (of_nat (3 * 2 ^ j))" using r F by simp
    have "round_up_size s = Some (of_nat (3 * 2 ^ j)) \<and> ?n < unat (of_nat (3 * 2 ^ j) :: size_t)
        \<and> 256 \<le> unat (of_nat (3 * 2 ^ j) :: size_t) \<and> is_bucket (unat (of_nat (3 * 2 ^ j) :: size_t))
        \<and> (256 \<le> ?n \<longrightarrow> (\<forall>c. is_bucket c \<and> ?n < c \<longrightarrow> unat (of_nat (3 * 2 ^ j) :: size_t) \<le> c))"
      unfolding u using r' F ge b m j(2) by simp
    then show ?thesis by (rule exI)
  qed
qed

text \<open>The theorem at the size 257.\<close>

theorem round_up_size_next_bucket_witness:
  "unat (257 :: size_t) < 3 * 2 ^ 29 \<and> round_up_size 257 = Some 384 \<and> is_bucket 384 \<and>
   \<not> (\<exists>c. is_bucket c \<and> 257 < c \<and> c < 384)"
proof -
  have r: "round_up_size 257 = Some 384"
    by (simp add: round_up_size_def shl_int_def log2_size_def)
  from round_up_size_next_bucket [of 257]
  have "is_bucket 384 \<and> (\<forall>c. is_bucket c \<and> 257 < c \<longrightarrow> 384 \<le> c)"
    by (simp add: r)
  then show ?thesis using r by auto
qed

text \<open>
  The claim as stated fails: a size below 256 is rounded to 768, not to 256, and 768 is
  rounded to 1024, not to itself.
\<close>

theorem round_up_size_counterexample:
  "round_up_size 100 = Some 768 \<and> round_up_size 768 = Some 1024"
  by (simp add: round_up_size_def shl_int_def log2_size_def)

lemma dlseg_frame:
  assumes "\<forall>a\<in>set xs. map_option links (h' a) = map_option links (h a)"
  shows "dlseg h' p first xs final nx = dlseg h p first xs final nx"
  using assms
proof (induction xs arbitrary: p first)
  case Nil
  then show ?case by simp
next
  case (Cons a as)
  have a: "map_option links (h' a) = map_option links (h a)" using Cons.prems by simp
  have IH: "\<And>p first. dlseg h' p first as final nx = dlseg h p first as final nx"
    using Cons by simp
  show ?case
  proof (cases "h a")
    case None
    then have "h' a = None" using a by simp
    then show ?thesis using None by simp
  next
    case (Some e)
    then obtain e' where e': "h' a = Some e'" "links e' = links e" using a by (cases "h' a") auto
    then show ?thesis using Some IH by (simp add: links_def)
  qed
qed

lemma dlseg_append:
  "dlseg h p first (xs @ ys) final nx =
     (\<exists>q m. dlseg h p first xs q m \<and> dlseg h q m ys final nx)"
proof (induction xs arbitrary: p first)
  case Nil
  then show ?case by auto
next
  case (Cons a as)
  then show ?case by (auto split: option.splits)
qed

lemma dlseg_allocated: "dlseg h p first xs final nx \<Longrightarrow> a \<in> set xs \<Longrightarrow> h a \<noteq> None"
  by (induction xs arbitrary: p first) (auto split: option.splits)

lemma dlseg_last:
  "dlseg h p first xs final nx \<Longrightarrow> xs \<noteq> [] \<Longrightarrow>
     final = Some (last xs) \<and> (\<exists>e. h (last xs) = Some e \<and> qe_next e = nx)"
proof (induction xs arbitrary: p first)
  case Nil
  then show ?case by simp
next
  case (Cons a as)
  then show ?case by (cases as) (auto split: option.splits)
qed



lemma dll_final_None: "dll h first xs None \<Longrightarrow> xs = [] \<and> first = None"
  by (cases "xs = []") (auto simp: dll_def dest: dlseg_last)

lemma dll_first_None: "dll h None xs final \<Longrightarrow> xs = [] \<and> final = None"
  by (cases xs) (auto simp: dll_def)

lemma dll_snoc:
  assumes wf: "dll h first xs final" and fresh: "be \<notin> set xs" and e': "links e' = (None, final)"
    and h': "h' = (case final of None \<Rightarrow> h
                   | Some t \<Rightarrow> (case h t of None \<Rightarrow> h | Some te \<Rightarrow> h(t \<mapsto> te\<lparr>qe_next := Some be\<rparr>)))
                  (be \<mapsto> e')"
  shows "dll h' (case final of None \<Rightarrow> Some be | Some t \<Rightarrow> first) (xs @ [be]) (Some be)"
proof (cases final)
  case None
  then have "xs = []" "first = None" using wf dll_final_None by blast+
  then show ?thesis using None e' h' by (simp add: dll_def links_def)
next
  case (Some t)
  then have ne: "xs \<noteq> []" using wf by (auto simp: dll_def)
  define ys where "ys = butlast xs"
  have seg: "dlseg h None first xs (Some t) None" and dist: "distinct xs"
    using wf Some by (simp_all add: dll_def)
  from dlseg_last [OF seg ne] obtain te where
    t: "t = last xs" "h t = Some te" "qe_next te = None" by auto
  have xs: "xs = ys @ [t]" using ne t(1) by (simp add: ys_def)
  from seg obtain q where q: "dlseg h None first ys q (Some t)" "qe_prev te = q"
    unfolding xs dlseg_append using t(2) by auto
  have tbe: "t \<noteq> be" using fresh xs by auto
  have hh: "h' = (h(t \<mapsto> te\<lparr>qe_next := Some be\<rparr>))(be \<mapsto> e')"
    using h' Some t(2) by simp
  have "\<forall>a\<in>set ys. map_option links (h' a) = map_option links (h a)"
    using dist fresh unfolding xs hh by auto
  then have 1: "dlseg h' None first ys q (Some t)"
    using q(1) dlseg_frame [of ys h' h None first q "Some t"] by blast
  have 2: "dlseg h' q (Some t) [t, be] (Some be) None"
    using tbe q(2) e' Some unfolding hh by (simp add: links_def)
  have "dlseg h' None first (ys @ [t, be]) (Some be) None"
    unfolding dlseg_append using 1 2 by blast
  moreover have "distinct (xs @ [be])" using dist fresh by simp
  ultimately show ?thesis using Some unfolding xs by (simp add: dll_def)
qed

lemma bq_put_free_heap:
  assumes "dll h (free_head bp) xs (free_tail bp)" "h be = Some e" "be \<notin> set xs"
  shows "bq_put_free bp be h =
     Some (bp\<lparr>free_head := (case free_tail bp of None \<Rightarrow> Some be | Some t \<Rightarrow> free_head bp),
               free_tail := Some be\<rparr>,
           (case free_tail bp of None \<Rightarrow> h
            | Some t \<Rightarrow> (case h t of None \<Rightarrow> h | Some te \<Rightarrow> h(t \<mapsto> te\<lparr>qe_next := Some be\<rparr>)))
           (be \<mapsto> e\<lparr>qe_prev := free_tail bp, qe_next := None\<rparr>))"
proof (cases "free_tail bp")
  case None
  then show ?thesis using assms by (simp add: bq_put_free_def upd_def)
next
  case (Some t)
  then have ne: "xs \<noteq> []" using assms(1) by (auto simp: dll_def)
  have "t \<in> set xs" using dlseg_last [of h None "free_head bp" xs "free_tail bp" None] assms(1) ne Some
    by (auto simp: dll_def)
  then have t: "t \<noteq> be" "h t \<noteq> None" using assms dlseg_allocated [of h None _ xs _ None t]
    by (auto simp: dll_def)
  then obtain te where te: "h t = Some te" by auto
  show ?thesis using Some te t(1) assms(2) by (simp add: bq_put_free_def upd_def)
qed


lemma dlseg_set_prev:
  assumes "dlseg h p first (n # zs) final nx" "n \<notin> set zs" "h n = Some ne"
  shows "dlseg (h(n \<mapsto> ne\<lparr>qe_prev := q\<rparr>)) q first (n # zs) final nx"
proof -
  let ?h = "h(n \<mapsto> ne\<lparr>qe_prev := q\<rparr>)"
  have "\<forall>a\<in>set zs. map_option links (?h a) = map_option links (h a)"
    using assms(2) by auto
  then have "dlseg ?h (Some n) (qe_next ne) zs final nx = dlseg h (Some n) (qe_next ne) zs final nx"
    by (rule dlseg_frame)
  then show ?thesis using assms by simp
qed

lemma dlseg_set_next:
  assumes "dlseg h p first (ys @ [l]) final nx" "l \<notin> set ys" "h l = Some le"
  shows "dlseg (h(l \<mapsto> le\<lparr>qe_next := nx'\<rparr>)) p first (ys @ [l]) final nx'"
proof -
  let ?h = "h(l \<mapsto> le\<lparr>qe_next := nx'\<rparr>)"
  from assms(1) obtain q where q: "dlseg h p first ys q (Some l)" "dlseg h q (Some l) [l] final nx"
    unfolding dlseg_append by (auto split: option.splits)
  have "\<forall>a\<in>set ys. map_option links (?h a) = map_option links (h a)"
    using assms(2) by auto
  then have "dlseg ?h p first ys q (Some l) = dlseg h p first ys q (Some l)"
    by (rule dlseg_frame)
  then have 1: "dlseg ?h p first ys q (Some l)" using q(1) by simp
  have 2: "dlseg ?h q (Some l) [l] final nx'" using q(2) assms(3) by simp
  show ?thesis unfolding dlseg_append using 1 2 by blast
qed

lemma dll_split:
  assumes "dll h first (ys @ a # zs) final" "h a = Some e"
  shows "qe_prev e = (if ys = [] then None else Some (last ys))"
    "qe_next e = (if zs = [] then None else Some (hd zs))"
    "dlseg h None first ys (qe_prev e) (Some a)"
    "dlseg h (Some a) (qe_next e) zs final None"
    "ys = [] \<Longrightarrow> first = Some a" "zs = [] \<Longrightarrow> final = Some a"
proof -
  from assms have seg: "dlseg h None first (ys @ a # zs) final None"
    by (simp add: dll_def)
  then obtain q where q: "dlseg h None first ys q (Some a)" "qe_prev e = q"
    "dlseg h (Some a) (qe_next e) zs final None"
    unfolding dlseg_append using assms(2) by (auto split: option.splits)
  show "qe_prev e = (if ys = [] then None else Some (last ys))"
    using q(1) q(2) dlseg_last [OF q(1)] by (cases "ys = []") auto
  show "qe_next e = (if zs = [] then None else Some (hd zs))"
    using q(3) by (cases zs) auto
  show "ys = [] \<Longrightarrow> first = Some a" using q(1) by simp
  show "zs = [] \<Longrightarrow> final = Some a" using q(3) by simp
  show "dlseg h None first ys (qe_prev e) (Some a)" using q by simp
  show "dlseg h (Some a) (qe_next e) zs final None" using q by simp
qed

lemma dll_unlink:
  assumes wf: "dll h first (ys @ a # zs) final" and e: "h a = Some e"
  shows "dll (unlink h a e)
           (case qe_prev e of None \<Rightarrow> qe_next e | Some p \<Rightarrow> first) (ys @ zs)
           (case qe_next e of None \<Rightarrow> qe_prev e | Some n \<Rightarrow> final)"
proof -
  note p = dll_split(1) [OF wf e] and n = dll_split(2) [OF wf e] and sy = dll_split(3) [OF wf e]
    and sz = dll_split(4) [OF wf e]
  have dist: "distinct ys" "distinct zs" "a \<notin> set ys" "a \<notin> set zs" "set ys \<inter> set zs = {}"
    using wf by (auto simp: dll_def)
  let ?h1 = "case qe_next e of
                 Some n \<Rightarrow> (case h n of None \<Rightarrow> h | Some ne \<Rightarrow> h(n \<mapsto> ne\<lparr>qe_prev := qe_prev e\<rparr>))
               | None \<Rightarrow> h"
  let ?h2 = "case qe_prev e of
                 Some p \<Rightarrow> (case ?h1 p of None \<Rightarrow> ?h1 | Some pe \<Rightarrow> ?h1(p \<mapsto> pe\<lparr>qe_next := qe_next e\<rparr>))
               | None \<Rightarrow> ?h1"
  let ?h3 = "?h2(a \<mapsto> e\<lparr>qe_next := None, qe_prev := None\<rparr>)"
  have un: "unlink h a e = ?h3" by (simp add: unlink_def Let_def)
  let ?fin = "case qe_next e of None \<Rightarrow> qe_prev e | Some n \<Rightarrow> final"
  \<comment> \<open>the part behind the removed node\<close>
  have z1: "dlseg ?h1 (qe_prev e) (qe_next e) zs ?fin None"
  proof (cases zs)
    case Nil
    then show ?thesis using sz n by simp
  next
    case (Cons n' zs')
    then obtain ne where ne: "h n' = Some ne" using sz by (auto split: option.splits)
    have "n' \<notin> set zs'" using dist(2) Cons by simp
    then show ?thesis using dlseg_set_prev [of h "Some a" "qe_next e" n' zs' final None ne "qe_prev e"]
        sz n Cons ne by simp
  qed
  have y1: "dlseg ?h1 None first ys (qe_prev e) (Some a)"
  proof -
    have "zs \<noteq> [] \<Longrightarrow> hd zs \<notin> set ys"
      using dist(5) hd_in_set [of zs] by blast
    then have "\<forall>b\<in>set ys. map_option links (?h1 b) = map_option links (h b)"
      using n by (cases "zs = []") (auto split: option.splits)
    then show ?thesis using sy dlseg_frame [of ys ?h1 h None first "qe_prev e" "Some a"] by blast
  qed
  \<comment> \<open>the part in front of the removed node\<close>
  have y2: "dlseg ?h2 None (case qe_prev e of None \<Rightarrow> qe_next e | Some p \<Rightarrow> first) ys
              (qe_prev e) (qe_next e)"
  proof (cases "ys = []")
    case True
    then show ?thesis using p by simp
  next
    case False
    define l where "l = last ys"
    define ys' where "ys' = butlast ys"
    have ys: "ys = ys' @ [l]" using False by (simp add: l_def ys'_def)
    have pl: "qe_prev e = Some l" using p False by (simp add: l_def)
    from dlseg_last [OF y1 False] obtain le where le: "?h1 l = Some le" by (auto simp: l_def)
    have "l \<notin> set ys'" using dist(1) ys by simp
    then have "dlseg (?h1(l \<mapsto> le\<lparr>qe_next := qe_next e\<rparr>)) None first (ys' @ [l]) (qe_prev e) (qe_next e)"
      using dlseg_set_next [of ?h1 None first ys' l "qe_prev e" "Some a" le "qe_next e"] y1 le ys
      by simp
    then show ?thesis using pl le ys by simp
  qed
  have z2: "dlseg ?h2 (qe_prev e) (qe_next e) zs ?fin None"
  proof -
    have "ys \<noteq> [] \<Longrightarrow> last ys \<notin> set zs"
      using dist(5) last_in_set [of ys] by blast
    then have "\<forall>b\<in>set zs. map_option links (?h2 b) = map_option links (?h1 b)"
      using p by (cases "ys = []") (auto split: option.splits)
    then show ?thesis using z1 dlseg_frame [of zs ?h2 ?h1 "qe_prev e" "qe_next e" ?fin None] by blast
  qed
  have y3: "dlseg ?h3 None (case qe_prev e of None \<Rightarrow> qe_next e | Some p \<Rightarrow> first) ys
              (qe_prev e) (qe_next e)"
  proof -
    have "\<forall>b\<in>set ys. map_option links (?h3 b) = map_option links (?h2 b)"
      using dist(3) by auto
    then show ?thesis using y2 dlseg_frame [of ys ?h3 ?h2] by blast
  qed
  have z3: "dlseg ?h3 (qe_prev e) (qe_next e) zs ?fin None"
  proof -
    have "\<forall>b\<in>set zs. map_option links (?h3 b) = map_option links (?h2 b)"
      using dist(4) by auto
    then show ?thesis using z2 dlseg_frame [of zs ?h3 ?h2] by blast
  qed
  have "dlseg ?h3 None (case qe_prev e of None \<Rightarrow> qe_next e | Some p \<Rightarrow> first) (ys @ zs) ?fin None"
    unfolding dlseg_append using y3 z3 by blast
  moreover have "distinct (ys @ zs)" using dist by simp
  ultimately show ?thesis unfolding un dll_def by blast
qed


lemma unlink_payload: "h a = Some e \<Longrightarrow> map_option payload (unlink h a e b) = map_option payload (h b)"
  by (auto simp: unlink_def payload_def Let_def split: option.splits)

lemma unlink_self: "unlink h a e a = Some (e\<lparr>qe_next := None, qe_prev := None\<rparr>)"
  by (simp add: unlink_def Let_def)

lemma unlink_frame:
  assumes "dll h first (ys @ a # zs) final" "h a = Some e" "b \<notin> set (ys @ a # zs)"
  shows "unlink h a e b = h b"
proof -
  have n: "qe_next e = Some n \<Longrightarrow> n \<in> set zs" for n
    using dll_split(2) [OF assms(1,2)] by (cases zs) (auto split: if_splits)
  have p: "qe_prev e = Some p \<Longrightarrow> p \<in> set ys" for p
    using dll_split(1) [OF assms(1,2)] by (cases "ys = []") (auto split: if_splits)
  show ?thesis using assms(3) n p
    by (auto simp: unlink_def Let_def split: option.splits)
qed

lemma dll_frame:
  assumes "\<forall>a\<in>set xs. h' a = h a"
  shows "dll h' first xs final = dll h first xs final"
  using dlseg_frame [of xs h' h None first final None] assms by (simp add: dll_def)

lemma unlink_steps:
  assumes wf: "dll h first (ys @ a # zs) final" and e: "h a = Some e"
  shows "(case qe_next e of
            Some n \<Rightarrow> do { h' \<leftarrow> upd h n (\<lambda>x. x\<lparr>qe_prev := qe_prev e\<rparr>); Some (bp, h') }
          | None \<Rightarrow> Some (f bp, h)) \<bind>
         (\<lambda>(bp1, h1). (case qe_prev e of
                          Some p \<Rightarrow> do { h' \<leftarrow> upd h1 p (\<lambda>x. x\<lparr>qe_next := qe_next e\<rparr>); Some (bp1, h') }
                        | None \<Rightarrow> Some (g bp1, h1)) \<bind>
         (\<lambda>(bp2, h2). upd h2 a (\<lambda>x. x\<lparr>qe_next := None, qe_prev := None\<rparr>) \<bind>
         (\<lambda>h3. Some (r, bp2, h3)))) =
         Some (r, (case qe_prev e of None \<Rightarrow> g | Some p \<Rightarrow> id) ((case qe_next e of None \<Rightarrow> f | Some n \<Rightarrow> id) bp),
               unlink h a e)"
proof -
  note p = dll_split(1) [OF wf e] and n = dll_split(2) [OF wf e]
  have dist: "distinct (ys @ a # zs)" using wf by (simp add: dll_def)
  have alloc: "b \<in> set (ys @ a # zs) \<Longrightarrow> h b \<noteq> None" for b
    using wf dlseg_allocated [of h None first "ys @ a # zs" final None b] by (simp add: dll_def)
  show ?thesis
  proof (cases "zs = []")
    case zT: True
    show ?thesis
    proof (cases "ys = []")
      case True
      then show ?thesis using zT p n e by (simp add: upd_def unlink_def)
    next
      case False
      then have "last ys \<in> set ys" by simp
      then obtain pe where pe: "h (last ys) = Some pe" and "last ys \<noteq> a"
        using alloc [of "last ys"] dist by auto
      then show ?thesis using zT False p n e by (simp add: upd_def unlink_def)
    qed
  next
    case zF: False
    then have hz: "hd zs \<in> set zs" by simp
    then obtain ne where ne: "h (hd zs) = Some ne" and na: "hd zs \<noteq> a"
      using alloc [of "hd zs"] dist by auto
    show ?thesis
    proof (cases "ys = []")
      case True
      then show ?thesis using zF p n e ne na by (simp add: upd_def unlink_def)
    next
      case False
      then have ly: "last ys \<in> set ys" by simp
      then obtain pe where pe: "h (last ys) = Some pe" and pa: "last ys \<noteq> a"
        using alloc [of "last ys"] dist by auto
      have "last ys \<noteq> hd zs" using ly hz dist by auto
      then show ?thesis using zF False p n e ne na pe pa by (simp add: upd_def unlink_def)
    qed
  qed
qed

lemma bq_extract_inuse_heap:
  assumes "inuse_list bp h (ys @ a # zs)" "h a = Some e"
  shows "bq_extract_inuse bp a h =
     Some (a, (case qe_prev e of None \<Rightarrow> (\<lambda>b. b\<lparr>inuse_head := qe_next e\<rparr>) | Some p \<Rightarrow> id)
                ((case qe_next e of None \<Rightarrow> (\<lambda>b. b\<lparr>inuse_tail := qe_prev e\<rparr>) | Some n \<Rightarrow> id) bp),
           unlink h a e)"
  using unlink_steps [OF assms(1) [unfolded inuse_list_def] assms(2),
      where bp = bp and f = "\<lambda>b. b\<lparr>inuse_tail := qe_prev e\<rparr>"
        and g = "\<lambda>b. b\<lparr>inuse_head := qe_next e\<rparr>" and r = a]
  by (simp add: bq_extract_inuse_def assms(2))


lemma find_fd_dlseg:
  assumes "dlseg h p first xs final None" "\<forall>a\<in>set xs. primary_fd h a \<noteq> None"
  shows "find_fd h fd first = Some (List.find (\<lambda>a. primary_fd h a = Some fd) xs)"
  using assms
proof (induction xs arbitrary: p first)
  case Nil
  then show ?case by (simp add: find_fd.simps)
next
  case (Cons a as)
  then obtain e where e: "first = Some a" "h a = Some e" "dlseg h (Some a) (qe_next e) as final None"
    by (auto split: option.splits)
  obtain d0 ds where d: "dh e = d0 # ds"
    using Cons.prems(2) e(2) by (cases "dh e") (auto simp: primary_fd_def)
  have IH: "find_fd h fd (qe_next e) = Some (List.find (\<lambda>a. primary_fd h a = Some fd) as)"
    using Cons.IH [OF e(3)] Cons.prems(2) by simp
  have pf: "primary_fd h a = Some (dmabuf_fd d0)" using e(2) d by (simp add: primary_fd_def)
  show ?case
    by (subst find_fd.simps) (simp add: e(1) e(2) d IH pf)
qed

lemma find_split:
  "List.find P xs = Some a \<Longrightarrow> \<exists>ys zs. xs = ys @ a # zs \<and> P a \<and> (\<forall>y\<in>set ys. \<not> P y)"
proof (induction xs)
  case Nil
  then show ?case by simp
next
  case (Cons x xs)
  show ?case
  proof (cases "P x")
    case True
    then have "x = a" using Cons.prems by simp
    then show ?thesis using True by (intro exI [of _ "[]"] exI [of _ xs]) simp
  next
    case False
    then have "List.find P xs = Some a" using Cons.prems by simp
    from Cons.IH [OF this] obtain ys zs where "xs = ys @ a # zs" "P a" "\<forall>y\<in>set ys. \<not> P y"
      by blast
    then show ?thesis using False by (intro exI [of _ "x # ys"] exI [of _ zs]) simp
  qed
qed

lemma remove1_split: "a \<notin> set ys \<Longrightarrow> remove1 a (ys @ a # zs) = ys @ zs"
  by (induction ys) auto

lemma queue_find_extract_fd_found:
  assumes wf: "inuse_list bp h xs" and pl: "\<forall>a\<in>set xs. primary_fd h a \<noteq> None"
    and f: "List.find (\<lambda>a. primary_fd h a = Some fd) xs = Some a"
  shows "\<exists>bp' h'. queue_find_extract_fd bp fd h = Some (Some a, bp', h') \<and>
           inuse_list bp' h' (remove1 a xs) \<and> a \<notin> set (remove1 a xs) \<and>
           free_head bp' = free_head bp \<and> free_tail bp' = free_tail bp \<and> free_sem bp' = free_sem bp \<and>
           (\<forall>b. map_option payload (h' b) = map_option payload (h b)) \<and>
           (\<forall>b. b \<notin> set xs \<longrightarrow> h' b = h b) \<and>
           map_option links (h' a) = Some (None, None)"
proof -
  from find_split [OF f] obtain ys zs where
    xs: "xs = ys @ a # zs" and ny: "\<forall>y\<in>set ys. primary_fd h y \<noteq> Some fd" by blast
  have dist: "distinct xs" using wf by (simp add: inuse_list_def dll_def)
  obtain e where e: "h a = Some e"
    using pl xs by (cases "h a") (auto simp: primary_fd_def)
  have seg: "dlseg h None (inuse_head bp) xs (inuse_tail bp) None"
    using wf by (simp add: inuse_list_def dll_def)
  have fd: "find_fd h fd (inuse_head bp) = Some (Some a)"
    using find_fd_dlseg [OF seg pl, of fd] f by simp
  let ?bp = "(case qe_prev e of None \<Rightarrow> (\<lambda>b. b\<lparr>inuse_head := qe_next e\<rparr>) | Some p \<Rightarrow> id)
                ((case qe_next e of None \<Rightarrow> (\<lambda>b. b\<lparr>inuse_tail := qe_prev e\<rparr>) | Some n \<Rightarrow> id) bp)"
  have ex: "bq_extract_inuse bp a h = Some (a, ?bp, unlink h a e)"
    using bq_extract_inuse_heap [OF wf [unfolded xs] e] .
  have r: "queue_find_extract_fd bp fd h = Some (Some a, ?bp, unlink h a e)"
    by (simp add: queue_find_extract_fd_def fd ex)
  have hd: "inuse_head ?bp = (case qe_prev e of None \<Rightarrow> qe_next e | Some p \<Rightarrow> inuse_head bp)"
    and tl: "inuse_tail ?bp = (case qe_next e of None \<Rightarrow> qe_prev e | Some n \<Rightarrow> inuse_tail bp)"
    and fr: "free_head ?bp = free_head bp" "free_tail ?bp = free_tail bp" "free_sem ?bp = free_sem bp"
    by (auto split: option.splits)
  have a_ys: "a \<notin> set ys" "a \<notin> set zs" using dist xs by auto
  have wf': "inuse_list ?bp (unlink h a e) (remove1 a xs)"
    unfolding inuse_list_def hd tl xs remove1_split [OF a_ys(1)]
    using dll_unlink [OF wf [unfolded xs inuse_list_def] e] .
  have notin: "a \<notin> set (remove1 a xs)" using dist by simp
  have fr2: "\<forall>b. b \<notin> set xs \<longrightarrow> unlink h a e b = h b"
    using unlink_frame [OF wf [unfolded xs inuse_list_def] e] xs by blast
  have pay: "\<forall>b. map_option payload (unlink h a e b) = map_option payload (h b)"
    using unlink_payload [of h a e] e by blast
  show ?thesis
    using r wf' notin fr pay fr2
    by (intro exI [of _ ?bp] exI [of _ "unlink h a e"]) (simp add: unlink_self links_def)
qed

lemma queue_find_extract_fd_missing:
  assumes wf: "inuse_list bp h xs" and pl: "\<forall>a\<in>set xs. primary_fd h a \<noteq> None"
    and f: "List.find (\<lambda>a. primary_fd h a = Some fd) xs = None"
  shows "queue_find_extract_fd bp fd h = Some (None, bp, h)"
proof -
  have seg: "dlseg h None (inuse_head bp) xs (inuse_tail bp) None"
    using wf by (simp add: inuse_list_def dll_def)
  have "find_fd h fd (inuse_head bp) = Some None"
    using find_fd_dlseg [OF seg pl, of fd] f by simp
  then show ?thesis by (simp add: queue_find_extract_fd_def)
qed

lemma queue_put_inuse_heap:
  assumes wf: "inuse_list bp h xs" and e: "h be = Some e" and fresh: "be \<notin> set xs"
  shows "\<exists>bp' h'. queue_put_inuse bp (Some be) h = Some (bp', h') \<and>
           inuse_list bp' h' (xs @ [be]) \<and>
           h' be = Some (e\<lparr>qe_prev := inuse_tail bp, qe_next := None, status := QENT_WAITING\<rparr>) \<and>
           free_head bp' = free_head bp \<and> free_tail bp' = free_tail bp \<and> free_sem bp' = free_sem bp \<and>
           (\<forall>b. b \<noteq> be \<longrightarrow> map_option payload (h' b) = map_option payload (h b)) \<and>
           (\<forall>b. b \<notin> set (xs @ [be]) \<longrightarrow> h' b = h b)"
proof -
  let ?e' = "e\<lparr>qe_prev := inuse_tail bp, qe_next := None, status := QENT_WAITING\<rparr>"
  let ?h0 = "case inuse_tail bp of None \<Rightarrow> h
             | Some t \<Rightarrow> (case h t of None \<Rightarrow> h | Some te \<Rightarrow> h(t \<mapsto> te\<lparr>qe_next := Some be\<rparr>))"
  let ?h' = "?h0(be \<mapsto> ?e')"
  let ?bp' = "bp\<lparr>inuse_head := (case inuse_tail bp of None \<Rightarrow> Some be | Some t \<Rightarrow> inuse_head bp),
                 inuse_tail := Some be\<rparr>"
  have d: "dll h (inuse_head bp) xs (inuse_tail bp)" using wf by (simp add: inuse_list_def)
  have r: "queue_put_inuse bp (Some be) h = Some (?bp', ?h')"
  proof (cases "inuse_tail bp")
    case None
    then show ?thesis using e by (simp add: queue_put_inuse_def upd_def)
  next
    case (Some t)
    then have ne: "xs \<noteq> []" using d by (auto simp: dll_def)
    have "t \<in> set xs" using dlseg_last [of h None "inuse_head bp" xs "inuse_tail bp" None] d ne Some
      by (auto simp: dll_def)
    then have t: "t \<noteq> be" "h t \<noteq> None" using fresh d dlseg_allocated [of h None _ xs _ None t]
      by (auto simp: dll_def)
    then obtain te where te: "h t = Some te" by auto
    show ?thesis using Some te t(1) e by (simp add: queue_put_inuse_def upd_def)
  qed
  have l: "links ?e' = (None, inuse_tail bp)" by (simp add: links_def)
  have wf': "inuse_list ?bp' ?h' (xs @ [be])"
    using dll_snoc [OF d fresh l, of ?h'] by (simp add: inuse_list_def)
  have t_in: "inuse_tail bp = Some t \<Longrightarrow> t \<in> set xs" for t
    using dlseg_last [of h None "inuse_head bp" xs "inuse_tail bp" None] d
    by (cases "xs = []") (auto simp: dll_def)
  have pay: "\<forall>b. b \<noteq> be \<longrightarrow> map_option payload (?h' b) = map_option payload (h b)"
    by (auto simp: payload_def split: option.splits)
  have fr: "\<forall>b. b \<notin> set (xs @ [be]) \<longrightarrow> ?h' b = h b"
    using t_in by (auto split: option.splits)
  show ?thesis using r wf' pay fr
    by (intro exI [of _ ?bp'] exI [of _ ?h']) simp
qed


lemma lead_planes_len_reset: "d \<in> set (lead_planes (len_reset ds)) \<Longrightarrow> dh_len d = 0"
  by (induction ds rule: len_reset.induct) (auto simp: dmabuf_len_set_def)



lemma lens_zero_set: "lens_zero ds = (\<forall>d. Some d \<in> set ds \<longrightarrow> dh_len d = 0)"
  by (induction ds) (auto simp: lens_zero_def split: option.splits)


lemma behind_gap_len_reset: "behind_gap (len_reset ds) = behind_gap ds"
  by (induction ds rule: len_reset.induct) (auto simp: behind_gap_def)

lemma lens_zero_behind_gap: "lens_zero ds \<Longrightarrow> lens_zero (behind_gap ds)"
  unfolding lens_zero_set behind_gap_def by (auto dest: set_dropWhileD)

lemma behind_gap_first_len:
  "behind_gap (Some (dmabuf_len_set d n) # ds) = behind_gap (Some d # ds)"
  by (simp add: behind_gap_def)

lemma entry_clean_frame: "h' a = h a \<Longrightarrow> entry_clean h' a = entry_clean h a"
  by (simp add: entry_clean_def)


lemma entry_clean_payload:
  "map_option payload (h' a) = map_option payload (h a) \<Longrightarrow> entry_clean h' a = entry_clean h a"
proof -
  assume a: "map_option payload (h' a) = map_option payload (h a)"
  have p: "timestamp (payload e) = timestamp e" "dh (payload e) = dh e" for e :: "'a qent_base_scheme"
    by (simp_all add: payload_def)
  show ?thesis
  proof (cases "h a")
    case None
    then show ?thesis using a by (simp add: entry_clean_def)
  next
    case (Some e)
    then obtain e' where e': "h' a = Some e'" "payload e' = payload e" using a by (cases "h' a") auto
    have "timestamp e' = timestamp e" "dh e' = dh e"
      using p [of e'] p [of e] e'(2) by simp_all
    then show ?thesis using Some e'(1) by (simp add: entry_clean_def)
  qed
qed

lemma queue_put_free_heap:
  assumes wf: "free_list bp h xs" and e: "h be = Some e" and fresh: "be \<notin> set xs"
  shows "\<exists>bp' h'. queue_put_free bp be h = Some (bp', h') \<and>
           free_list bp' h' (xs @ [be]) \<and> free_sem bp' = free_sem bp + 1 \<and>
           h' be = Some (e\<lparr>timestamp := \<lparr>tv_sec = 0, tv_usec = 0\<rparr>, dh := len_reset (dh e),
                            qe_prev := free_tail bp, qe_next := None\<rparr>) \<and>
           inuse_head bp' = inuse_head bp \<and> inuse_tail bp' = inuse_tail bp \<and>
           (\<forall>b. b \<noteq> be \<longrightarrow> map_option payload (h' b) = map_option payload (h b)) \<and>
           (\<forall>b. b \<notin> set (xs @ [be]) \<longrightarrow> h' b = h b)"
proof -
  let ?e2 = "e\<lparr>timestamp := \<lparr>tv_sec = 0, tv_usec = 0\<rparr>, dh := len_reset (dh e)\<rparr>"
  let ?h2 = "h(be \<mapsto> ?e2)"
  let ?e' = "?e2\<lparr>qe_prev := free_tail bp, qe_next := None\<rparr>"
  let ?h0 = "case free_tail bp of None \<Rightarrow> ?h2
             | Some t \<Rightarrow> (case ?h2 t of None \<Rightarrow> ?h2 | Some te \<Rightarrow> ?h2(t \<mapsto> te\<lparr>qe_next := Some be\<rparr>))"
  let ?h' = "?h0(be \<mapsto> ?e')"
  let ?bp1 = "bp\<lparr>free_head := (case free_tail bp of None \<Rightarrow> Some be | Some t \<Rightarrow> free_head bp),
                 free_tail := Some be\<rparr>"
  let ?bp' = "?bp1\<lparr>free_sem := free_sem ?bp1 + 1\<rparr>"
  have d: "dll h (free_head bp) xs (free_tail bp)" using wf by (simp add: free_list_def)
  have d2: "dll ?h2 (free_head bp) xs (free_tail bp)"
    using d dll_frame [of xs ?h2 h] fresh by auto
  have h2: "?h2 be = Some ?e2" by simp
  have put: "bq_put_free bp be ?h2 = Some (?bp1, ?h')"
    by (rule bq_put_free_heap [OF d2 h2 fresh])
  have r: "queue_put_free bp be h = Some (?bp', ?h')"
    using e put by (simp add: queue_put_free_def upd_def)
  have l: "links ?e' = (None, free_tail bp)" by (simp add: links_def)
  have wf': "free_list ?bp' ?h' (xs @ [be])"
    using dll_snoc [OF d2 fresh l, of ?h'] by (simp add: free_list_def)
  have t_in: "free_tail bp = Some t \<Longrightarrow> t \<in> set xs" for t
    using dlseg_last [of h None "free_head bp" xs "free_tail bp" None] d
    by (cases "xs = []") (auto simp: dll_def)
  have pay: "\<forall>b. b \<noteq> be \<longrightarrow> map_option payload (?h' b) = map_option payload (h b)"
    by (auto simp: payload_def split: option.splits)
  have fr: "\<forall>b. b \<notin> set (xs @ [be]) \<longrightarrow> ?h' b = h b"
    using t_in by (auto split: option.splits)
  show ?thesis using r wf' pay fr
    by (intro exI [of _ ?bp'] exI [of _ ?h']) simp
qed



section \<open>The in-use list: insertion and lookup by descriptor\<close>

lemma find_first:
  assumes "be \<in> set xs" "P be" "\<forall>a\<in>set (takeWhile (\<lambda>a. a \<noteq> be) xs). \<not> P a"
  shows "List.find P xs = Some be"
  using assms by (induction xs) (auto split: if_splits)

text \<open>
  Claim C8. On a well-formed in-use list whose entries have a primary plane slot:
  \<^verbatim>\<open>queue_put_inuse\<close> appends an entry that is not on the list and leaves its contents
  but the links and the status as they are; \<^verbatim>\<open>queue_find_extract_fd\<close> returns the first
  entry from the front whose primary plane has the descriptor, the same address with the
  same contents, and takes it off the list, so an entry on the list is returned for the
  descriptor of its primary plane when no entry in front of it has that descriptor; with no
  match it returns NULL and leaves the pool and the heap as they are.
\<close>

theorem queue_inuse_round_trip:
  assumes wf: "inuse_list bp h xs" and pl: "\<forall>a\<in>set xs. primary_fd h a \<noteq> None"
  shows
    "(\<forall>be e. h be = Some e \<and> be \<notin> set xs \<longrightarrow>
        (\<exists>bp' h'. queue_put_inuse bp (Some be) h = Some (bp', h') \<and>
           inuse_list bp' h' (xs @ [be]) \<and>
           map_option payload (h' be) = Some (payload (e\<lparr>status := QENT_WAITING\<rparr>)) \<and>
           (\<forall>b. b \<noteq> be \<longrightarrow> map_option payload (h' b) = map_option payload (h b)))) \<and>
     (\<forall>fd. case List.find (\<lambda>a. primary_fd h a = Some fd) xs of
             None \<Rightarrow> queue_find_extract_fd bp fd h = Some (None, bp, h)
           | Some a \<Rightarrow>
               (\<exists>bp' h'. queue_find_extract_fd bp fd h = Some (Some a, bp', h') \<and>
                  inuse_list bp' h' (remove1 a xs) \<and> a \<notin> set (remove1 a xs) \<and>
                  (\<forall>b. map_option payload (h' b) = map_option payload (h b)))) \<and>
     (\<forall>be fd. be \<in> set xs \<and> primary_fd h be = Some fd \<and>
         (\<forall>a\<in>set (takeWhile (\<lambda>a. a \<noteq> be) xs). primary_fd h a \<noteq> Some fd) \<longrightarrow>
         (\<exists>bp' h'. queue_find_extract_fd bp fd h = Some (Some be, bp', h') \<and>
            inuse_list bp' h' (remove1 be xs) \<and> be \<notin> set (remove1 be xs) \<and>
            map_option payload (h' be) = map_option payload (h be)))"
proof (intro conjI allI impI)
  fix be e
  assume a: "h be = Some e \<and> be \<notin> set xs"
  from queue_put_inuse_heap [OF wf, of be e] a obtain bp' h' where
    r: "queue_put_inuse bp (Some be) h = Some (bp', h')" "inuse_list bp' h' (xs @ [be])"
      "h' be = Some (e\<lparr>qe_prev := inuse_tail bp, qe_next := None, status := QENT_WAITING\<rparr>)"
      "\<forall>b. b \<noteq> be \<longrightarrow> map_option payload (h' b) = map_option payload (h b)"
    by blast
  have "map_option payload (h' be) = Some (payload (e\<lparr>status := QENT_WAITING\<rparr>))"
    using r(3) by (simp add: payload_def)
  then show "\<exists>bp' h'. queue_put_inuse bp (Some be) h = Some (bp', h') \<and>
           inuse_list bp' h' (xs @ [be]) \<and>
           map_option payload (h' be) = Some (payload (e\<lparr>status := QENT_WAITING\<rparr>)) \<and>
           (\<forall>b. b \<noteq> be \<longrightarrow> map_option payload (h' b) = map_option payload (h b))"
    using r by blast
next
  fix fd
  show "case List.find (\<lambda>a. primary_fd h a = Some fd) xs of
             None \<Rightarrow> queue_find_extract_fd bp fd h = Some (None, bp, h)
           | Some a \<Rightarrow>
               (\<exists>bp' h'. queue_find_extract_fd bp fd h = Some (Some a, bp', h') \<and>
                  inuse_list bp' h' (remove1 a xs) \<and> a \<notin> set (remove1 a xs) \<and>
                  (\<forall>b. map_option payload (h' b) = map_option payload (h b)))"
  proof (cases "List.find (\<lambda>a. primary_fd h a = Some fd) xs")
    case None
    then show ?thesis using queue_find_extract_fd_missing [OF wf pl] by simp
  next
    case (Some a)
    from queue_find_extract_fd_found [OF wf pl Some] show ?thesis using Some by auto
  qed
next
  fix be fd
  assume a: "be \<in> set xs \<and> primary_fd h be = Some fd \<and>
         (\<forall>a\<in>set (takeWhile (\<lambda>a. a \<noteq> be) xs). primary_fd h a \<noteq> Some fd)"
  have f: "List.find (\<lambda>a. primary_fd h a = Some fd) xs = Some be"
    using a by (intro find_first) auto
  from queue_find_extract_fd_found [OF wf pl f]
  show "\<exists>bp' h'. queue_find_extract_fd bp fd h = Some (Some be, bp', h') \<and>
            inuse_list bp' h' (remove1 be xs) \<and> be \<notin> set (remove1 be xs) \<and>
            map_option payload (h' be) = map_option payload (h be)"
    by blast
qed


text \<open>
  The theorem on an in-use list of two entries with the descriptors 10 and 11: the lookup
  of 11 returns the second entry and leaves the first on the list.
\<close>

theorem queue_inuse_round_trip_witness:
  "inuse_list (ex_pool None None (Some 1) (Some 2))
     [1 \<mapsto> ex_src 10 (Some 2) None, 2 \<mapsto> ex_src 11 None (Some 1)] [1, 2] \<and>
   (\<exists>bp' h'. queue_find_extract_fd (ex_pool None None (Some 1) (Some 2)) 11
               [1 \<mapsto> ex_src 10 (Some 2) None, 2 \<mapsto> ex_src 11 None (Some 1)]
             = Some (Some 2, bp', h') \<and>
            inuse_list bp' h' [1])"
proof -
  let ?bp = "ex_pool None None (Some 1) (Some 2)"
  let ?h = "[1 \<mapsto> ex_src 10 (Some 2) None, 2 \<mapsto> ex_src 11 None (Some 1)]"
  have wf: "inuse_list ?bp ?h [1, 2]"
    by (simp add: inuse_list_def dll_def ex_pool_def ex_src_def)
  have pl: "\<forall>a\<in>set [1, 2]. primary_fd ?h a \<noteq> None"
    by (simp add: primary_fd_def ex_src_def ex_planes_def)
  have fd: "primary_fd ?h 2 = Some 11" "primary_fd ?h 1 \<noteq> Some 11"
    by (simp_all add: primary_fd_def ex_src_def ex_planes_def dmabuf_fd_def)
  note t = queue_inuse_round_trip [OF wf pl, THEN conjunct2, THEN conjunct2, rule_format, of 2 11]
  have prem: "(2::addr) \<in> set [1, 2] \<and> primary_fd ?h 2 = Some 11 \<and>
      (\<forall>a\<in>set (takeWhile (\<lambda>a. a \<noteq> 2) [1, 2]). primary_fd ?h a \<noteq> Some 11)"
    using fd by simp
  from t [OF prem] obtain bp' h' where "queue_find_extract_fd ?bp 11 ?h = Some (Some 2, bp', h')"
    "inuse_list bp' h' [1]" by auto
  then show ?thesis using wf by blast
qed

section \<open>The free list: recycling and acquisition\<close>





section \<open>Plane handles of a destination entry\<close>

text \<open>
  Claim C10. \<^verbatim>\<open>qent_dst_dmabuf\<close> returns NULL for a plane index at or beyond
  \<^verbatim>\<open>VIDEO_MAX_PLANES\<close>, and the handle of the slot for an index below it, which is one of
  the slots of the entry and may be NULL.
\<close>

theorem qent_dst_dmabuf_bounds:
  assumes "length (dh be_dst) = VIDEO_MAX_PLANES"
  shows "(VIDEO_MAX_PLANES \<le> unat plane \<longrightarrow> qent_dst_dmabuf be_dst plane = None) \<and>
         (unat plane < VIDEO_MAX_PLANES \<longrightarrow>
            qent_dst_dmabuf be_dst plane = dh be_dst ! unat plane \<and>
            unat plane < length (dh be_dst) \<and>
            qent_dst_dmabuf be_dst plane \<in> set (dh be_dst))"
  using assms by (auto simp: qent_dst_dmabuf_def)

text \<open>
  The theorem on an entry whose plane 0 is populated: the planes 8 and 4294967295 give
  NULL, plane 0 gives the handle and plane 1, which is in range and unpopulated, NULL.
\<close>

theorem qent_dst_dmabuf_bounds_witness:
  "length (dh (ex_dst 10 False)) = VIDEO_MAX_PLANES \<and>
   qent_dst_dmabuf (ex_dst 10 False) 8 = None \<and>
   qent_dst_dmabuf (ex_dst 10 False) 4294967295 = None \<and>
   qent_dst_dmabuf (ex_dst 10 False) 0 = Some \<lparr>dh_fd = 10, dh_size = 4096, dh_len = 100\<rparr> \<and>
   qent_dst_dmabuf (ex_dst 10 False) 1 = None"
proof -
  have l: "length (dh (ex_dst 10 False)) = VIDEO_MAX_PLANES"
    by (simp add: ex_dst_def ex_planes_def VIDEO_MAX_PLANES_def)
  have "qent_dst_dmabuf (ex_dst 10 False) 8 = None"
    using qent_dst_dmabuf_bounds [OF l, of 8] by (simp add: VIDEO_MAX_PLANES_def)
  moreover have "qent_dst_dmabuf (ex_dst 10 False) 4294967295 = None"
    using qent_dst_dmabuf_bounds [OF l, of 4294967295] by (simp add: VIDEO_MAX_PLANES_def)
  moreover have "qent_dst_dmabuf (ex_dst 10 False) 0 = Some \<lparr>dh_fd = 10, dh_size = 4096, dh_len = 100\<rparr>"
    using qent_dst_dmabuf_bounds [OF l, of 0]
    by (simp add: VIDEO_MAX_PLANES_def ex_dst_def ex_planes_def)
  moreover have "qent_dst_dmabuf (ex_dst 10 False) 1 = None"
    using qent_dst_dmabuf_bounds [OF l, of 1]
    by (simp add: VIDEO_MAX_PLANES_def ex_dst_def ex_planes_def)
  ultimately show ?thesis using l by blast
qed

section \<open>The request pool: conservation of the handles\<close>

lemma chain_frame:
  "\<forall>a\<in>set xs. h' a = h a \<Longrightarrow> chain h' p xs = chain h p xs"
  by (induction xs arbitrary: p) (auto split: option.splits)

lemma media_pool_new_fold:
  assumes "fold (\<lambda>i acc. case acc of
                              None \<Rightarrow> None
                            | Some (fr, h) \<Rightarrow>
                                (case alloc i of
                                   Req_ok rfd \<Rightarrow> Some (Some i, h(i \<mapsto> \<lparr>req_next = fr, req_fd = rfd\<rparr>))
                                 | _ \<Rightarrow> None))
               [0..<n] (Some (None, Map.empty)) = Some (fr, h)"
  shows "chain h fr (rev [0..<n]) \<and> (\<forall>a. (h a \<noteq> None) = (a < n))"
  using assms
proof (induction n arbitrary: fr h)
  case 0
  then show ?case by auto
next
  case (Suc n)
  let ?f = "\<lambda>i acc. case acc of
                              None \<Rightarrow> None
                            | Some (fr, h) \<Rightarrow>
                                (case alloc i of
                                   Req_ok rfd \<Rightarrow> Some (Some i, h(i \<mapsto> \<lparr>req_next = fr, req_fd = rfd\<rparr>))
                                 | _ \<Rightarrow> None)"
  from Suc.prems have s: "?f n (fold ?f [0..<n] (Some (None, Map.empty))) = Some (fr, h)"
    by simp
  then obtain fr0 h0 where p: "fold ?f [0..<n] (Some (None, Map.empty)) = Some (fr0, h0)"
    by (cases "fold ?f [0..<n] (Some (None, Map.empty))") auto
  then obtain rfd where r: "alloc n = Req_ok rfd" "fr = Some n" "h = h0(n \<mapsto> \<lparr>req_next = fr0, req_fd = rfd\<rparr>)"
    using s by (cases "alloc n") auto
  from Suc.IH [OF p] have IH: "chain h0 fr0 (rev [0..<n])" "\<forall>a. (h0 a \<noteq> None) = (a < n)"
    by blast+
  have "chain h fr0 (rev [0..<n]) = chain h0 fr0 (rev [0..<n])"
    by (rule chain_frame) (simp add: r(3))
  then have "chain h fr (rev [0..<Suc n])" using IH(1) r by simp
  moreover have "\<forall>a. (h a \<noteq> None) = (a < Suc n)" using IH(2) r(3) by auto
  ultimately show ?case by blast
qed

lemma media_pool_new_inv:
  assumes "media_pool_new opened alloc n = Some (mp, h)" "mpool w = mp" "reqs w = h"
  shows "pool_inv n w (rev [0..<n]) {}"
proof -
  from assms(1) obtain fd fr where
    f: "fold (\<lambda>i acc. case acc of
                              None \<Rightarrow> None
                            | Some (fr, h) \<Rightarrow>
                                (case alloc i of
                                   Req_ok rfd \<Rightarrow> Some (Some i, h(i \<mapsto> \<lparr>req_next = fr, req_fd = rfd\<rparr>))
                                 | _ \<Rightarrow> None))
               [0..<n] (Some (None, Map.empty)) = Some (fr, h)"
    and mp: "mp = \<lparr>mp_fd = fd, sem = n, free_reqs = fr\<rparr>"
    by (auto simp: media_pool_new_def split: option.splits)
  from media_pool_new_fold [OF f] show ?thesis
    using assms(2,3) mp by (auto simp: pool_inv_def)
qed

lemma media_request_get_inv:
  assumes inv: "pool_inv n w fs fl" and s: "0 < sem (mpool w)"
  shows "\<exists>r fs' w'. fs = r # fs' \<and> media_request_get w = Some (Some r, w') \<and>
           pool_inv n w' fs' (insert r fl) \<and> r \<notin> fl \<and> kern w' = kern w"
proof -
  from inv s obtain r fs' where fs: "fs = r # fs'" by (cases fs) (auto simp: pool_inv_def)
  from inv fs obtain x where x: "free_reqs (mpool w) = Some r" "reqs w r = Some x"
    "chain (reqs w) (req_next x) fs'"
    by (auto simp: pool_inv_def split: option.splits)
  let ?w = "w\<lparr>mpool := (mpool w)\<lparr>sem := sem (mpool w) - 1, free_reqs := req_next x\<rparr>,
               reqs := (reqs w)(r \<mapsto> x\<lparr>req_next := None\<rparr>)\<rparr>"
  have g: "media_request_get w = Some (Some r, ?w)"
    using s x by (simp add: media_request_get_def do_wait_def)
  have d: "r \<notin> set fs'" "distinct fs'" using inv fs by (auto simp: pool_inv_def)
  have c: "chain (reqs ?w) (req_next x) fs'"
    using chain_frame [of fs' "reqs ?w" "reqs w" "req_next x"] d(1) x(3) by auto
  have "pool_inv n ?w fs' (insert r fl)"
    using inv fs c d unfolding pool_inv_def by auto
  moreover have "r \<notin> fl" using inv fs by (auto simp: pool_inv_def)
  ultimately show ?thesis using fs g by (intro exI [of _ r] exI [of _ fs'] exI [of _ ?w]) simp
qed

lemma media_request_get_blocks: "sem (mpool w) = 0 \<Longrightarrow> media_request_get w = None"
  by (simp add: media_request_get_def do_wait_def)

lemma media_request_done_inv:
  assumes inv: "pool_inv n w fs fl" and r: "r \<in> fl"
  shows "(script (kern w) \<noteq> [] \<longrightarrow> (\<exists>w'. media_request_done r w = Some w')) \<and>
         (\<forall>w'. media_request_done r w = Some w' \<longrightarrow> pool_inv n w' (r # fs) (fl - {r}))"
proof -
  have rn: "r < n" "r \<notin> set fs" using inv r by (auto simp: pool_inv_def)
  then obtain x where x: "reqs w r = Some x" using inv by (auto simp: pool_inv_def)
  have 1: "script (kern w) \<noteq> [] \<longrightarrow> (\<exists>w'. media_request_done r w = Some w')"
    using x by (cases "script (kern w)")
      (auto simp: media_request_done_def media_request_fd_def ioctl_def upd_def)
  have 2: "pool_inv n w' (r # fs) (fl - {r})" if d: "media_request_done r w = Some w'" for w'
  proof -
    from d x obtain k' where w': "w' = w\<lparr>kern := k', reqs := (reqs w)(r \<mapsto> x\<lparr>req_next := free_reqs (mpool w)\<rparr>),
              mpool := (mpool w)\<lparr>free_reqs := Some r, sem := sem (mpool w) + 1\<rparr>\<rparr>"
      by (auto simp: media_request_done_def media_request_fd_def ioctl_def upd_def
          split: list.splits)
    have c: "chain (reqs w') (free_reqs (mpool w)) fs"
      using chain_frame [of fs "reqs w'" "reqs w" "free_reqs (mpool w)"] rn(2) inv
      by (auto simp: w' pool_inv_def)
    show ?thesis using inv rn c r unfolding pool_inv_def by (auto simp: w')
  qed
  show ?thesis using 1 2 by blast
qed

lemma media_request_start_frame:
  assumes "media_request_start r w = Some (rv, w')"
  shows "reqs w' = reqs w \<and> mpool w' = mpool w \<and> dsts w' = dsts w \<and> srcs w' = srcs w \<and>
         ctl w' = ctl w"
proof -
  from assms obtain a k' where
    "(case a of Ioctl_err err \<Rightarrow> Some (- err, w\<lparr>kern := k'\<rparr>)
      | _ \<Rightarrow> Some (0, pollqueue_add_task (Pt_request r) 2000 (w\<lparr>kern := k'\<rparr>))) = Some (rv, w')"
    by (auto simp: media_request_start_def bind_eq_Some_conv)
  then show ?thesis by (cases a) (auto simp: pollqueue_add_task_def)
qed

lemma pool_step_inv:
  assumes "pool_inv n w fs fl" "pool_step ev (w, fl) = Some (w', fl')"
    and "case ev of Ev_done r \<Rightarrow> r \<in> fl | Ev_abort r \<Rightarrow> r \<in> fl | _ \<Rightarrow> True"
  shows "\<exists>fs'. pool_inv n w' fs' fl'"
proof (cases ev)
  case Ev_get
  show ?thesis
  proof (cases "sem (mpool w) = 0")
    case True
    then show ?thesis using assms(2) Ev_get by (simp add: media_request_get_blocks)
  next
    case False
    then obtain r fs1 w1 where "media_request_get w = Some (Some r, w1)"
      "pool_inv n w1 fs1 (insert r fl)"
      using media_request_get_inv [OF assms(1)] by auto
    then show ?thesis using assms(2) Ev_get by auto
  qed
next
  case (Ev_start r)
  then obtain rv where s: "media_request_start r w = Some (rv, w')" and f: "fl' = fl"
    using assms(2) by auto
  from media_request_start_frame [OF s] have "pool_inv n w' fs fl"
    using assms(1) by (simp add: pool_inv_def)
  then show ?thesis using f by blast
next
  case (Ev_done r)
  then have r: "r \<in> fl" using assms(3) by simp
  then show ?thesis using media_request_done_inv [OF assms(1) r] assms(2) Ev_done by auto
next
  case (Ev_abort r)
  then have r: "r \<in> fl" using assms(3) by simp
  then show ?thesis using media_request_done_inv [OF assms(1) r] assms(2) Ev_abort
    by (auto simp: media_request_abort_def bind_eq_Some_conv split: option.splits)
qed

lemma pool_run_inv:
  assumes "pool_inv n w fs fl" "reclaims_in_flight evs (w, fl)"
    "pool_run evs (w, fl) = Some (w', fl')"
  shows "\<exists>fs'. pool_inv n w' fs' fl'"
  using assms
proof (induction evs arbitrary: w fs fl)
  case Nil
  then show ?case by auto
next
  case (Cons ev evs)
  then obtain w1 fl1 where s: "pool_step ev (w, fl) = Some (w1, fl1)" "pool_run evs (w1, fl1) = Some (w', fl')"
    by (auto split: option.splits)
  have c: "case ev of Ev_done r \<Rightarrow> r \<in> fl | Ev_abort r \<Rightarrow> r \<in> fl | _ \<Rightarrow> True"
    and d: "reclaims_in_flight evs (w1, fl1)"
    using Cons.prems(2) s(1) by (auto split: pool_event.splits)
  from pool_step_inv [OF Cons.prems(1) s(1) c] obtain fs1 where "pool_inv n w1 fs1 fl1" by blast
  from Cons.IH [OF this d s(2)] show ?case .
qed

lemma pool_inv_count:
  assumes "pool_inv n w fs fl"
  shows "length fs + card fl = n \<and> card fl \<le> n"
proof -
  have d: "distinct fs" "set fs \<inter> fl = {}" "set fs \<union> fl = {0..<n}"
    using assms by (auto simp: pool_inv_def)
  have fin: "finite fl" using d(3) by (metis finite_Un finite_atLeastLessThan)
  have "card (set fs \<union> fl) = card (set fs) + card fl"
    using d(2) fin by (simp add: card_Un_disjoint)
  then have "length fs + card fl = n" using d by (simp add: distinct_card)
  then show ?thesis by simp
qed

text \<open>
  Claim C3, as the code has it. After a history of acquisitions, submissions and
  reclamations on a pool that \<^verbatim>\<open>media_pool_new\<close> created with \<open>n\<close> handles, in which every
  reclamation names a handle that is in flight, the free chain and the set in flight are
  disjoint and together are the \<open>n\<close> handles, the semaphore counts the free chain, and at
  most \<open>n\<close> handles are in flight. In such a state an acquisition returns the head of the
  free chain when the semaphore is positive and blocks when it is zero, and a reclamation
  of a handle in flight returns once the kernel has answered. \<^verbatim>\<open>media_request_abort\<close> is
  \<^verbatim>\<open>media_request_done\<close> called at once; it leaves the poll queue as it is.
\<close>

theorem media_pool_conservation:
  assumes new: "media_pool_new opened alloc n = Some (mp, h)"
    and w0: "mpool w0 = mp" "reqs w0 = h"
    and once: "reclaims_in_flight evs (w0, {})"
    and run: "pool_run evs (w0, {}) = Some (w, fl)"
  shows "\<exists>fs. chain (reqs w) (free_reqs (mpool w)) fs \<and> distinct fs \<and>
           set fs \<inter> fl = {} \<and> set fs \<union> fl = {0..<n} \<and>
           sem (mpool w) = length fs \<and> length fs + card fl = n \<and> card fl \<le> n \<and>
           (0 < sem (mpool w) \<longrightarrow>
              (\<exists>w'. media_request_get w = Some (Some (hd fs), w') \<and> hd fs \<in> set fs)) \<and>
           (sem (mpool w) = 0 \<longrightarrow> media_request_get w = None \<and> card fl = n) \<and>
           (\<forall>r\<in>fl. script (kern w) \<noteq> [] \<longrightarrow> (\<exists>w'. media_request_done r w = Some w')) \<and>
           (\<forall>r rv preq w'. media_request_abort (Some r) w = Some (rv, preq, w') \<longrightarrow>
              rv = 0 \<and> preq = None \<and> media_request_done r w = Some w' \<and> pollq w' = pollq w)"
proof -
  have "pool_inv n w0 (rev [0..<n]) {}" by (rule media_pool_new_inv [OF new w0])
  from pool_run_inv [OF this once run] obtain fs where inv: "pool_inv n w fs fl" by blast
  note c = pool_inv_count [OF inv]
  have g: "0 < sem (mpool w) \<longrightarrow>
              (\<exists>w'. media_request_get w = Some (Some (hd fs), w') \<and> hd fs \<in> set fs)"
    using media_request_get_inv [OF inv] by auto
  have b: "sem (mpool w) = 0 \<longrightarrow> media_request_get w = None \<and> card fl = n"
    using media_request_get_blocks [of w] c inv by (auto simp: pool_inv_def)
  have d: "\<forall>r\<in>fl. script (kern w) \<noteq> [] \<longrightarrow> (\<exists>w'. media_request_done r w = Some w')"
    using media_request_done_inv [OF inv] by blast
  have a: "\<forall>r rv preq w'. media_request_abort (Some r) w = Some (rv, preq, w') \<longrightarrow>
              rv = 0 \<and> preq = None \<and> media_request_done r w = Some w' \<and> pollq w' = pollq w"
    by (auto simp: media_request_abort_def media_request_done_def bind_eq_Some_conv)
  have "chain (reqs w) (free_reqs (mpool w)) fs \<and> distinct fs \<and>
           set fs \<inter> fl = {} \<and> set fs \<union> fl = {0..<n} \<and>
           sem (mpool w) = length fs \<and> length fs + card fl = n \<and> card fl \<le> n"
    using inv c unfolding pool_inv_def by blast
  then show ?thesis using g b d a by (intro exI [of _ fs]) blast
qed

lemmas pool_defs =
  ex_pool_world_def ex_kernel_def media_request_get_def do_wait_def media_request_abort_def
  media_request_done_def media_request_start_def media_request_fd_def ioctl_def
  ioctl_retry_def pollqueue_add_task_def upd_def EINTR_def

text \<open>
  The theorem on a pool of two handles: both are acquired, the second is submitted, the
  first is aborted and the poll completion reclaims the second, which leaves both handles
  on the free chain.
\<close>

theorem media_pool_conservation_witness:
  "media_pool_new (Some 3) (\<lambda>i. Req_ok (int i + 5)) 2 =
     Some (mpool (ex_pool_world [Ioctl_ok, Ioctl_ok, Ioctl_ok]),
           reqs (ex_pool_world [Ioctl_ok, Ioctl_ok, Ioctl_ok])) \<and>
   reclaims_in_flight [Ev_get, Ev_get, Ev_start 0, Ev_abort 1, Ev_done 0]
     (ex_pool_world [Ioctl_ok, Ioctl_ok, Ioctl_ok], {}) \<and>
   (\<exists>w fs. pool_run [Ev_get, Ev_get, Ev_start 0, Ev_abort 1, Ev_done 0]
              (ex_pool_world [Ioctl_ok, Ioctl_ok, Ioctl_ok], {}) = Some (w, {}) \<and>
      chain (reqs w) (free_reqs (mpool w)) fs \<and> set fs = {0..<2} \<and>
      sem (mpool w) = length fs \<and> length fs = 2)"
proof -
  let ?w0 = "ex_pool_world [Ioctl_ok, Ioctl_ok, Ioctl_ok]"
  let ?evs = "[Ev_get, Ev_get, Ev_start 0, Ev_abort 1, Ev_done 0]"
  have new: "media_pool_new (Some 3) (\<lambda>i. Req_ok (int i + 5)) 2 = Some (mpool ?w0, reqs ?w0)"
    by (simp add: media_pool_new_def ex_pool_world_def upt_rec fun_upd_twist)
  have once: "reclaims_in_flight ?evs (?w0, {})"
    by (auto simp: pool_defs)
  have "\<exists>w. pool_run ?evs (?w0, {}) = Some (w, {})"
    by (auto simp: pool_defs)
  then obtain w where run: "pool_run ?evs (?w0, {}) = Some (w, {})"
    by blast
  from media_pool_conservation [OF new refl refl once run] obtain fs where
    "chain (reqs w) (free_reqs (mpool w)) fs" "set fs \<union> {} = {0..<2}"
    "sem (mpool w) = length fs" "length fs + card ({} :: addr set) = 2"
    by (elim exE conjE) (rule that; assumption)
  then have "\<exists>fs. pool_run ?evs (?w0, {}) = Some (w, {}) \<and>
      chain (reqs w) (free_reqs (mpool w)) fs \<and> set fs = {0..<2} \<and>
      sem (mpool w) = length fs \<and> length fs = 2"
    using run by (intro exI [of _ fs]) simp
  then show ?thesis using new once by (intro conjI exI [of _ w]) assumption+
qed

text \<open>
  The claim as stated fails for a history that reclaims a handle twice.
  \<^verbatim>\<open>media_request_abort\<close> on a submitted request calls \<^verbatim>\<open>media_request_done\<close> and leaves
  the poll task of the request armed; the poll completion then calls
  \<^verbatim>\<open>media_request_done\<close> on the same request again. On a pool of two handles this leaves
  the semaphore at 3 and handle 1 at the head of the free chain, linked to itself; handle 0
  is no longer on the chain and is not in flight.
\<close>

theorem media_pool_conservation_counterexample:
  "pool_run [Ev_get, Ev_start 1, Ev_abort 1]
     (ex_pool_world [Ioctl_ok, Ioctl_ok, Ioctl_ok], {}) =
     Some (\<lparr>ctl = None, wlm_linked = False, srcs = Map.empty, dsts = Map.empty,
            mpool = \<lparr>mp_fd = 3, sem = 2, free_reqs = Some 1\<rparr>,
            reqs = [0 \<mapsto> \<lparr>req_next = None, req_fd = 5\<rparr>, 1 \<mapsto> \<lparr>req_next = Some 0, req_fd = 6\<rparr>],
            kern = \<lparr>script = [Ioctl_ok],
                    trace = [(6, MEDIA_REQUEST_IOC_QUEUE), (6, MEDIA_REQUEST_IOC_REINIT)]\<rparr>,
            pollq = [(Pt_request 1, 2000)]\<rparr>, {}) \<and>
   pool_run [Ev_get, Ev_start 1, Ev_abort 1, Ev_done 1]
     (ex_pool_world [Ioctl_ok, Ioctl_ok, Ioctl_ok], {}) =
     Some (\<lparr>ctl = None, wlm_linked = False, srcs = Map.empty, dsts = Map.empty,
            mpool = \<lparr>mp_fd = 3, sem = 3, free_reqs = Some 1\<rparr>,
            reqs = [0 \<mapsto> \<lparr>req_next = None, req_fd = 5\<rparr>, 1 \<mapsto> \<lparr>req_next = Some 1, req_fd = 6\<rparr>],
            kern = \<lparr>script = [],
                    trace = [(6, MEDIA_REQUEST_IOC_QUEUE), (6, MEDIA_REQUEST_IOC_REINIT),
                             (6, MEDIA_REQUEST_IOC_REINIT)]\<rparr>,
            pollq = [(Pt_request 1, 2000)]\<rparr>, {}) \<and>
   \<not> reclaims_in_flight [Ev_get, Ev_start 1, Ev_abort 1, Ev_done 1]
       (ex_pool_world [Ioctl_ok, Ioctl_ok, Ioctl_ok], {})"
  by (simp add: pool_defs)

section \<open>Stream on and off\<close>

lemma set_stream_result:
  "script k = r # rest \<Longrightarrow>
   set_stream fd t enable k =
     Some (case r of Ioctl_err errno \<Rightarrow> - errno | _ \<Rightarrow> 0,
           k\<lparr>script := rest,
             trace := trace k @ [(fd, if enable then VIDIOC_STREAMON t else VIDIOC_STREAMOFF t)]\<rparr>)"
  by (simp add: set_stream_def ioctl_def split: ioctl_res.splits)

lemma set_stream_failed:
  "((case r of Ioctl_err errno \<Rightarrow> - errno | _ \<Rightarrow> 0) < (0::int)) = ioctl_failed r"
  by (simp add: ioctl_failed_def split: ioctl_res.splits)

text \<open>
  Claim C6, as the code has it. While the controller is marked as streaming,
  \<^verbatim>\<open>mediabufs_stream_off\<close> asks the kernel to stop the source direction and then the
  destination direction, whatever the first answer was, reports failure when either
  request failed, and clears the mark. While the controller is not marked as streaming,
  which is the state a failed \<^verbatim>\<open>mediabufs_stream_on\<close> leaves, it asks the kernel nothing and
  reports success.
\<close>

theorem mediabufs_stream_off_both:
  assumes "ctl w = Some mbc"
  shows
    "(stream_on mbc \<longrightarrow>
        (\<forall>r1 r2 rest. script (kern w) = r1 # r2 # rest \<longrightarrow>
           (\<exists>w'. mediabufs_stream_off w =
                    Some (if ioctl_failed r1 \<or> ioctl_failed r2
                          then MEDIABUFS_ERROR_OPERATION_FAILED else MEDIABUFS_STATUS_SUCCESS, w') \<and>
                  trace (kern w') = trace (kern w) @
                    [(vfd mbc, VIDIOC_STREAMOFF (fmt_type (src_fmt mbc))),
                     (vfd mbc, VIDIOC_STREAMOFF (fmt_type (dst_fmt mbc)))] \<and>
                  script (kern w') = rest \<and>
                  ctl w' = Some (mbc\<lparr>stream_on := False\<rparr>)))) \<and>
     (\<not> stream_on mbc \<longrightarrow> mediabufs_stream_off w = Some (MEDIABUFS_STATUS_SUCCESS, w))"
proof (intro conjI impI allI)
  fix r1 r2 rest
  assume on: "stream_on mbc" and s: "script (kern w) = r1 # r2 # rest"
  let ?k1 = "(kern w)\<lparr>script := r2 # rest,
                trace := trace (kern w) @ [(vfd mbc, VIDIOC_STREAMOFF (fmt_type (src_fmt mbc)))]\<rparr>"
  let ?k2 = "?k1\<lparr>script := rest,
                trace := trace ?k1 @ [(vfd mbc, VIDIOC_STREAMOFF (fmt_type (dst_fmt mbc)))]\<rparr>"
  have 1: "set_stream (vfd mbc) (fmt_type (src_fmt mbc)) False (kern w) =
             Some (case r1 of Ioctl_err errno \<Rightarrow> - errno | _ \<Rightarrow> 0, ?k1)"
    using set_stream_result [OF s, of "vfd mbc" "fmt_type (src_fmt mbc)" False] by simp
  have 2: "set_stream (vfd mbc) (fmt_type (dst_fmt mbc)) False ?k1 =
             Some (case r2 of Ioctl_err errno \<Rightarrow> - errno | _ \<Rightarrow> 0, ?k2)"
    using set_stream_result [of ?k1 r2 rest "vfd mbc" "fmt_type (dst_fmt mbc)" False] by simp
  let ?w' = "w\<lparr>ctl := Some (mbc\<lparr>stream_on := False\<rparr>), kern := ?k2\<rparr>"
  have "mediabufs_stream_off w =
          Some (if ioctl_failed r1 \<or> ioctl_failed r2
                then MEDIABUFS_ERROR_OPERATION_FAILED else MEDIABUFS_STATUS_SUCCESS, ?w')"
    using assms on by (simp add: mediabufs_stream_off_def 1 2 set_stream_failed Let_def)
  then show "\<exists>w'. mediabufs_stream_off w =
                    Some (if ioctl_failed r1 \<or> ioctl_failed r2
                          then MEDIABUFS_ERROR_OPERATION_FAILED else MEDIABUFS_STATUS_SUCCESS, w') \<and>
                  trace (kern w') = trace (kern w) @
                    [(vfd mbc, VIDIOC_STREAMOFF (fmt_type (src_fmt mbc))),
                     (vfd mbc, VIDIOC_STREAMOFF (fmt_type (dst_fmt mbc)))] \<and>
                  script (kern w') = rest \<and>
                  ctl w' = Some (mbc\<lparr>stream_on := False\<rparr>)"
    by (intro exI [of _ ?w']) simp
next
  assume "\<not> stream_on mbc"
  then show "mediabufs_stream_off w = Some (MEDIABUFS_STATUS_SUCCESS, w)"
    using assms by (simp add: mediabufs_stream_off_def)
qed

text \<open>
  The theorem on a streaming controller whose kernel refuses to stop the source direction:
  the destination direction is asked all the same, and the failure is reported.
\<close>

theorem mediabufs_stream_off_both_witness:
  "ctl ((ex_world [Ioctl_err 5, Ioctl_ok])\<lparr>ctl := Some (ex_ctl\<lparr>stream_on := True\<rparr>)\<rparr>) =
     Some (ex_ctl\<lparr>stream_on := True\<rparr>) \<and>
   (\<exists>w'. mediabufs_stream_off ((ex_world [Ioctl_err 5, Ioctl_ok])\<lparr>ctl := Some (ex_ctl\<lparr>stream_on := True\<rparr>)\<rparr>) =
            Some (MEDIABUFS_ERROR_OPERATION_FAILED, w') \<and>
          trace (kern w') =
            [(4, VIDIOC_STREAMOFF V4L2_BUF_TYPE_VIDEO_OUTPUT_MPLANE),
             (4, VIDIOC_STREAMOFF V4L2_BUF_TYPE_VIDEO_CAPTURE_MPLANE)])"
proof -
  let ?w = "(ex_world [Ioctl_err 5, Ioctl_ok])\<lparr>ctl := Some (ex_ctl\<lparr>stream_on := True\<rparr>)\<rparr>"
  have c: "ctl ?w = Some (ex_ctl\<lparr>stream_on := True\<rparr>)" by simp
  have s: "script (kern ?w) = Ioctl_err 5 # Ioctl_ok # []"
    by (simp add: ex_world_def ex_kernel_def)
  note t = mediabufs_stream_off_both [OF c, THEN conjunct1, rule_format, OF _ s]
  have "stream_on (ex_ctl\<lparr>stream_on := True\<rparr>)" by simp
  from t [OF this] obtain w' where
    "mediabufs_stream_off ?w = Some (MEDIABUFS_ERROR_OPERATION_FAILED, w')"
    "trace (kern w') =
            [(4, VIDIOC_STREAMOFF V4L2_BUF_TYPE_VIDEO_OUTPUT_MPLANE),
             (4, VIDIOC_STREAMOFF V4L2_BUF_TYPE_VIDEO_CAPTURE_MPLANE)]"
    by (auto simp: ioctl_failed_def ex_world_def ex_kernel_def ex_ctl_def ex_fmt_mp_def)
  then show ?thesis using c by blast
qed

text \<open>
  The claim as stated fails after a stream-on in which the destination direction failed:
  \<^verbatim>\<open>mediabufs_stream_on\<close> has turned the source direction off again itself and has left the
  controller unmarked, and \<^verbatim>\<open>mediabufs_stream_off\<close> then asks the kernel nothing (the two
  failures that the script holds for it are never seen) and reports success.
\<close>

theorem mediabufs_stream_off_counterexample:
  "mediabufs_stream_on (ex_world [Ioctl_ok, Ioctl_err 22, Ioctl_ok, Ioctl_err 5, Ioctl_err 5]) =
     Some (MEDIABUFS_ERROR_OPERATION_FAILED,
           (ex_world [])\<lparr>kern := \<lparr>script = [Ioctl_err 5, Ioctl_err 5],
                                   trace = [(4, VIDIOC_STREAMON V4L2_BUF_TYPE_VIDEO_OUTPUT_MPLANE),
                                            (4, VIDIOC_STREAMON V4L2_BUF_TYPE_VIDEO_CAPTURE_MPLANE),
                                            (4, VIDIOC_STREAMOFF V4L2_BUF_TYPE_VIDEO_OUTPUT_MPLANE)]\<rparr>\<rparr>) \<and>
   mediabufs_stream_off
     ((ex_world [])\<lparr>kern := \<lparr>script = [Ioctl_err 5, Ioctl_err 5],
                             trace = [(4, VIDIOC_STREAMON V4L2_BUF_TYPE_VIDEO_OUTPUT_MPLANE),
                                      (4, VIDIOC_STREAMON V4L2_BUF_TYPE_VIDEO_CAPTURE_MPLANE),
                                      (4, VIDIOC_STREAMOFF V4L2_BUF_TYPE_VIDEO_OUTPUT_MPLANE)]\<rparr>\<rparr>) =
     Some (MEDIABUFS_STATUS_SUCCESS,
           (ex_world [])\<lparr>kern := \<lparr>script = [Ioctl_err 5, Ioctl_err 5],
                                   trace = [(4, VIDIOC_STREAMON V4L2_BUF_TYPE_VIDEO_OUTPUT_MPLANE),
                                            (4, VIDIOC_STREAMON V4L2_BUF_TYPE_VIDEO_CAPTURE_MPLANE),
                                            (4, VIDIOC_STREAMOFF V4L2_BUF_TYPE_VIDEO_OUTPUT_MPLANE)]\<rparr>\<rparr>)"
  by (simp add: mediabufs_stream_on_def mediabufs_stream_off_def set_stream_def ioctl_def
      ex_world_def ex_kernel_def ex_ctl_def ex_fmt_mp_def)

section \<open>Setting a format\<close>

lemma ioctl_retry_script_EINTR:
  assumes "r \<noteq> Ioctl_err EINTR"
  shows "ioctl_retry_script fd rq (replicate m (Ioctl_err EINTR) @ r # rest) tr =
           Some (r, \<lparr>script = rest, trace = tr @ replicate (Suc m) (fd, rq)\<rparr>)"
proof (induction m arbitrary: tr)
  case 0
  then show ?case using assms by simp
next
  case (Suc m)
  have "replicate (Suc m) (fd, rq) @ [(fd, rq)] = (fd, rq) # replicate (Suc m) (fd, rq)"
    by (simp add: replicate_append_same)
  then show ?case using Suc [of "tr @ [(fd, rq)]"] by simp
qed

lemma ioctl_retry_EINTR:
  assumes "script k = replicate m (Ioctl_err EINTR) @ r # rest" "r \<noteq> Ioctl_err EINTR"
  shows "ioctl_retry fd rq k =
           Some (r, \<lparr>script = rest, trace = trace k @ replicate (Suc m) (fd, rq)\<rparr>)"
  using ioctl_retry_script_EINTR [OF assms(2)] assms(1) by (simp add: ioctl_retry_def)

lemma ioctl_retry_script_last:
  "ioctl_retry_script fd rq rs tr = Some (r, k') \<Longrightarrow> r \<noteq> Ioctl_err EINTR"
  by (induction rs arbitrary: tr) (auto split: if_splits)


lemma fmt_set_result:
  "fmt_set fd buftype pixfmt width height bufsize k =
     (case ioctl_retry fd (VIDIOC_S_FMT (fmt_request buftype pixfmt width height bufsize)) k of
        None \<Rightarrow> None
      | Some (r, k') \<Rightarrow>
          (case r of
             Ioctl_err err \<Rightarrow>
               Some (MEDIABUFS_ERROR_OPERATION_FAILED, fmt_request buftype pixfmt width height bufsize, k')
           | Ioctl_fmt f \<Rightarrow>
               Some (if fmt_granted buftype f pixfmt width height
                     then MEDIABUFS_STATUS_SUCCESS else MEDIABUFS_ERROR_UNSUPPORTED_BUFFERTYPE, f, k')
           | _ \<Rightarrow>
               Some (if fmt_granted buftype (fmt_request buftype pixfmt width height bufsize) pixfmt width height
                     then MEDIABUFS_STATUS_SUCCESS else MEDIABUFS_ERROR_UNSUPPORTED_BUFFERTYPE,
                     fmt_request buftype pixfmt width height bufsize, k')))"
proof -
  have req: "(if V4L2_TYPE_IS_MULTIPLANAR buftype then
          (let m = (fmt_pix_mp \<lparr>fmt_type = buftype, fmt_pix = zero_pix, fmt_pix_mp = zero_pix_mp\<rparr>)
                     \<lparr>mp_width := width, mp_height := height, mp_pixelformat := pixfmt\<rparr>
           in \<lparr>fmt_type = buftype, fmt_pix = zero_pix, fmt_pix_mp = zero_pix_mp\<rparr>\<lparr>fmt_pix_mp :=
                 (if bufsize \<noteq> 0
                  then m\<lparr>mp_num_planes := 1,
                         mp_plane_sizeimage := (mp_plane_sizeimage m)[0 := ucast bufsize]\<rparr>
                  else m)\<rparr>)
        else
          \<lparr>fmt_type = buftype, fmt_pix = zero_pix, fmt_pix_mp = zero_pix_mp\<rparr>\<lparr>fmt_pix := \<lparr>pix_width = width, pix_height = height, pix_pixelformat = pixfmt,
                            pix_sizeimage = ucast bufsize\<rparr>\<rparr>) = fmt_request buftype pixfmt width height bufsize"
    by (simp add: fmt_request_def Let_def)
  show ?thesis
    unfolding fmt_set_def Let_def req [unfolded Let_def]
    by (cases "ioctl_retry fd (VIDIOC_S_FMT (fmt_request buftype pixfmt width height bufsize)) k")
      (auto simp: fmt_granted_def not_le split: ioctl_res.splits)
qed

text \<open>
  Claim C7, as the code has it. When the driver answers \<^verbatim>\<open>VIDIOC_S_FMT\<close> with a format,
  after any number of interrupted attempts, \<^verbatim>\<open>fmt_set\<close> returns success if the format
  grants at least the requested width and height with the requested pixel format, and
  unsupported-buffer-type otherwise, and in both cases the format structure of the caller
  holds what the driver returned. Whenever \<^verbatim>\<open>fmt_set\<close> returns success, the structure it
  leaves grants what was asked.
\<close>

theorem fmt_set_fails_closed:
  "(\<forall>m f rest. script k = replicate m (Ioctl_err EINTR) @ Ioctl_fmt f # rest \<longrightarrow>
      (\<exists>k'. fmt_set fd buftype pixfmt width height bufsize k =
               Some (if fmt_granted buftype f pixfmt width height
                     then MEDIABUFS_STATUS_SUCCESS
                     else MEDIABUFS_ERROR_UNSUPPORTED_BUFFERTYPE, f, k') \<and>
             script k' = rest)) \<and>
   (\<forall>fmt k'. fmt_set fd buftype pixfmt width height bufsize k =
                Some (MEDIABUFS_STATUS_SUCCESS, fmt, k') \<longrightarrow>
              fmt_granted buftype fmt pixfmt width height)"
proof (intro conjI allI impI)
  fix m f rest
  assume s: "script k = replicate m (Ioctl_err EINTR) @ Ioctl_fmt f # rest"
  have r: "ioctl_retry fd rq k =
           Some (Ioctl_fmt f, \<lparr>script = rest, trace = trace k @ replicate (Suc m) (fd, rq)\<rparr>)" for rq
    by (rule ioctl_retry_EINTR [OF s]) simp
  show "\<exists>k'. fmt_set fd buftype pixfmt width height bufsize k =
               Some (if fmt_granted buftype f pixfmt width height
                     then MEDIABUFS_STATUS_SUCCESS
                     else MEDIABUFS_ERROR_UNSUPPORTED_BUFFERTYPE, f, k') \<and>
             script k' = rest"
    by (simp add: fmt_set_result r)
next
  fix fmt k'
  assume "fmt_set fd buftype pixfmt width height bufsize k = Some (MEDIABUFS_STATUS_SUCCESS, fmt, k')"
  then show "fmt_granted buftype fmt pixfmt width height"
    unfolding fmt_set_result by (auto split: option.splits ioctl_res.splits if_splits)
qed


text \<open>
  The theorem on a request for 1920 by 1080 that is interrupted once and then answered
  with 1920 by 1088 in the requested pixel format: success, with the format of the driver.
\<close>

theorem fmt_set_fails_closed_witness:
  "script (ex_kernel [Ioctl_err EINTR,
             Ioctl_fmt (ex_fmt_mp V4L2_BUF_TYPE_VIDEO_OUTPUT_MPLANE 875967048 1920 1088)]) =
     replicate 1 (Ioctl_err EINTR) @
       Ioctl_fmt (ex_fmt_mp V4L2_BUF_TYPE_VIDEO_OUTPUT_MPLANE 875967048 1920 1088) # [] \<and>
   (\<exists>k'. fmt_set 4 V4L2_BUF_TYPE_VIDEO_OUTPUT_MPLANE 875967048 1920 1080 0
            (ex_kernel [Ioctl_err EINTR,
               Ioctl_fmt (ex_fmt_mp V4L2_BUF_TYPE_VIDEO_OUTPUT_MPLANE 875967048 1920 1088)]) =
          Some (MEDIABUFS_STATUS_SUCCESS,
                ex_fmt_mp V4L2_BUF_TYPE_VIDEO_OUTPUT_MPLANE 875967048 1920 1088, k') \<and>
          script k' = [])"
proof -
  let ?f = "ex_fmt_mp V4L2_BUF_TYPE_VIDEO_OUTPUT_MPLANE 875967048 1920 1088"
  let ?k = "ex_kernel [Ioctl_err EINTR, Ioctl_fmt ?f]"
  have s: "script ?k = replicate 1 (Ioctl_err EINTR) @ Ioctl_fmt ?f # []"
    by (simp add: ex_kernel_def)
  have g: "fmt_granted V4L2_BUF_TYPE_VIDEO_OUTPUT_MPLANE ?f 875967048 1920 1080"
    by (simp add: fmt_granted_def ex_fmt_mp_def V4L2_TYPE_IS_MULTIPLANAR_def)
  note t = fmt_set_fails_closed [of ?k 4 V4L2_BUF_TYPE_VIDEO_OUTPUT_MPLANE 875967048 1920 1080 0,
      THEN conjunct1, rule_format, OF s]
  then show ?thesis using s g by simp
qed

text \<open>
  The claim as stated fails where it says that no partial state is committed: the driver
  answers a request for 1920 by 1080 with 1280 by 720, \<^verbatim>\<open>mediabufs_src_fmt_set\<close> returns
  unsupported-buffer-type, and the source format of the controller is the format of the
  driver, not the one it held before.
\<close>

theorem fmt_set_counterexample:
  "mediabufs_src_fmt_set V4L2_BUF_TYPE_VIDEO_OUTPUT_MPLANE 875967048 1920 1080 0
     (ex_world [Ioctl_fmt (ex_fmt_mp V4L2_BUF_TYPE_VIDEO_OUTPUT_MPLANE 875967048 1280 720)]) =
     Some (MEDIABUFS_ERROR_UNSUPPORTED_BUFFERTYPE,
           (ex_world [])
             \<lparr>ctl := Some (ex_ctl\<lparr>src_fmt := ex_fmt_mp V4L2_BUF_TYPE_VIDEO_OUTPUT_MPLANE 875967048 1280 720\<rparr>),
              kern := \<lparr>script = [],
                       trace = [(4, VIDIOC_S_FMT (ex_fmt_mp V4L2_BUF_TYPE_VIDEO_OUTPUT_MPLANE 875967048 1920 1080))]\<rparr>\<rparr>) \<and>
   src_fmt ex_ctl \<noteq> ex_fmt_mp V4L2_BUF_TYPE_VIDEO_OUTPUT_MPLANE 875967048 1280 720"
  by (simp add: mediabufs_src_fmt_set_def fmt_set_result fmt_request_def fmt_granted_def
      ioctl_retry_def EINTR_def ex_world_def ex_kernel_def ex_ctl_def ex_fmt_mp_def
      V4L2_TYPE_IS_MULTIPLANAR_def V4L2_BUF_TYPE_VIDEO_OUTPUT_MPLANE_def
      V4L2_BUF_TYPE_VIDEO_CAPTURE_MPLANE_def zero_pix_mp_def)

section \<open>Waiting for a destination entry\<close>



















lemmas model_defs =
  mediabufs_start_request_def start_request_fail1_def start_request_queue_dst_def
  start_request_queue_src_def start_request_arm_poll_def qe_dst_waiting_def qe_dst_done_def
  qe_v4l2_queue_def queue_put_inuse_def queue_put_free_def bq_put_free_def upd_def
  media_request_abort_def media_request_done_def media_request_start_def media_request_fd_def
  ioctl_def ioctl_retry_def mediabufs_wants_poll_def queue_is_inuse_def mediabufs_ctl_ref_def
  pollqueue_add_task_def dmabuf_len_def dmabuf_size_def dmabuf_fd_def dmabuf_len_set_def
  V4L2_TYPE_IS_MULTIPLANAR_def V4L2_BUF_TYPE_VIDEO_OUTPUT_MPLANE_def
  V4L2_BUF_TYPE_VIDEO_CAPTURE_MPLANE_def EINTR_def

lemmas example_defs =
  ex_world_def ex_kernel_def ex_ctl_def ex_fmt_mp_def ex_pool_def ex_src_def ex_dst_def
  ex_planes_def




section \<open>Releasing a destination entry\<close>

lemma mediabufs_stream_off_keeps:
  assumes "mediabufs_stream_off w = Some (st, w')"
  shows "wlm_linked w' = wlm_linked w \<and> dsts w' = dsts w \<and> srcs w' = srcs w \<and>
         reqs w' = reqs w \<and> mpool w' = mpool w \<and> pollq w' = pollq w"
  using assms
  by (auto simp: mediabufs_stream_off_def bind_eq_Some_conv Let_def split: if_splits)

lemma mediabufs_ctl_delete_result:
  assumes "mediabufs_ctl_delete w = Some w'"
  shows "ctl w' = None \<and> \<not> wlm_linked w' \<and> dsts w' = dsts w \<and> srcs w' = srcs w"
proof -
  from assms obtain st w3 where
    s: "mediabufs_stream_off (polltask_delete Pt_mediabufs (w\<lparr>wlm_linked := False\<rparr>)) = Some (st, w3)"
    and r: "\<exists>k. w' = w3\<lparr>ctl := None, kern := k\<rparr>"
    by (auto simp: mediabufs_ctl_delete_def bind_eq_Some_conv Let_def)
  from mediabufs_stream_off_keeps [OF s] r show ?thesis
    by (auto simp: polltask_delete_def)
qed

text \<open>
  Claim C5. \<^verbatim>\<open>qent_dst_free\<close> leaves NULL in the pointer of the caller. When the weak link
  of the entry can be locked, the entry goes to the end of the destination free list of the
  controller, cleaned, and the semaphore of that list is posted. When it cannot, because
  the entry has no link or the master has been broken, the entry is deleted and nothing
  else changes: the controller is not touched, and the call returns also when the
  controller has been freed, as it is after \<^verbatim>\<open>mediabufs_ctl_delete\<close>.
\<close>

theorem qent_dst_free_weak_link:
  "qent_dst_free None w = Some (None, w) \<and>
   (\<forall>be e. dsts w be = Some e \<longrightarrow>
      (ff_weak_link_lock (mbc_wl e) w \<longrightarrow>
         (\<forall>mbc xs. ctl w = Some mbc \<and> free_list (dst mbc) (dsts w) xs \<and> be \<notin> set xs \<longrightarrow>
            (\<exists>bp' h'. qent_dst_free (Some be) w =
                         Some (None, w\<lparr>ctl := Some (mbc\<lparr>dst := bp'\<rparr>), dsts := h'\<rparr>) \<and>
                       free_list bp' h' (xs @ [be]) \<and> free_sem bp' = free_sem (dst mbc) + 1 \<and>
                       entry_clean h' be \<and>
                       map_option payload (h' be) =
                         Some (payload (e\<lparr>timestamp := \<lparr>tv_sec = 0, tv_usec = 0\<rparr>,
                                          dh := len_reset (dh e)\<rparr>))))) \<and>
      (\<not> ff_weak_link_lock (mbc_wl e) w \<longrightarrow>
         qent_dst_free (Some be) w = Some (None, w\<lparr>dsts := (dsts w)(be := None)\<rparr>))) \<and>
   (\<forall>w0 be e. mediabufs_ctl_delete w0 = Some w \<and> dsts w be = Some e \<longrightarrow>
      ctl w = None \<and>
      qent_dst_free (Some be) w = Some (None, w\<lparr>dsts := (dsts w)(be := None)\<rparr>))"
proof (intro conjI allI impI)
  show "qent_dst_free None w = Some (None, w)" by (simp add: qent_dst_free_def)
next
  fix be e mbc xs
  assume e: "dsts w be = Some e" and l: "ff_weak_link_lock (mbc_wl e) w"
    and a: "ctl w = Some mbc \<and> free_list (dst mbc) (dsts w) xs \<and> be \<notin> set xs"
  from queue_put_free_heap [of "dst mbc" "dsts w" xs be e] a e obtain bp' h' where
    r: "queue_put_free (dst mbc) be (dsts w) = Some (bp', h')" "free_list bp' h' (xs @ [be])"
      "free_sem bp' = free_sem (dst mbc) + 1"
      "h' be = Some (e\<lparr>timestamp := \<lparr>tv_sec = 0, tv_usec = 0\<rparr>, dh := len_reset (dh e),
                        qe_prev := free_tail (dst mbc), qe_next := None\<rparr>)"
    by blast
  have c: "entry_clean h' be"
    using r(4) lead_planes_len_reset by (auto simp: entry_clean_def)
  have p: "map_option payload (h' be) =
             Some (payload (e\<lparr>timestamp := \<lparr>tv_sec = 0, tv_usec = 0\<rparr>, dh := len_reset (dh e)\<rparr>))"
    using r(4) by (simp add: payload_def)
  have "qent_dst_free (Some be) w = Some (None, w\<lparr>ctl := Some (mbc\<lparr>dst := bp'\<rparr>), dsts := h'\<rparr>)"
    using e l a r(1) by (simp add: qent_dst_free_def)
  then show "\<exists>bp' h'. qent_dst_free (Some be) w =
                         Some (None, w\<lparr>ctl := Some (mbc\<lparr>dst := bp'\<rparr>), dsts := h'\<rparr>) \<and>
                       free_list bp' h' (xs @ [be]) \<and> free_sem bp' = free_sem (dst mbc) + 1 \<and>
                       entry_clean h' be \<and>
                       map_option payload (h' be) =
                         Some (payload (e\<lparr>timestamp := \<lparr>tv_sec = 0, tv_usec = 0\<rparr>,
                                          dh := len_reset (dh e)\<rparr>))"
    using r(2,3) c p by blast
next
  fix be e
  assume "dsts w be = Some e" "\<not> ff_weak_link_lock (mbc_wl e) w"
  then show "qent_dst_free (Some be) w = Some (None, w\<lparr>dsts := (dsts w)(be := None)\<rparr>)"
    by (simp add: qent_dst_free_def qent_dst_delete_def)
next
  fix w0 be e
  assume a: "mediabufs_ctl_delete w0 = Some w \<and> dsts w be = Some e"
  then show "ctl w = None" using mediabufs_ctl_delete_result [of w0 w] by simp
next
  fix w0 be e
  assume a: "mediabufs_ctl_delete w0 = Some w \<and> dsts w be = Some e"
  then have "\<not> wlm_linked w" using mediabufs_ctl_delete_result [of w0 w] by simp
  then show "qent_dst_free (Some be) w = Some (None, w\<lparr>dsts := (dsts w)(be := None)\<rparr>)"
    using a by (simp add: qent_dst_free_def qent_dst_delete_def ff_weak_link_lock_def)
qed

text \<open>
  The theorem on the example state: with the controller alive the destination entry goes
  to its free list; after the controller has been torn down the same entry is deleted.
\<close>

theorem qent_dst_free_weak_link_witness:
  "dsts (ex_world []) 1 = Some (ex_dst 20 False) \<and>
   ff_weak_link_lock (mbc_wl (ex_dst 20 False)) (ex_world []) \<and>
   (\<exists>bp' h'. qent_dst_free (Some 1) (ex_world []) =
                Some (None, (ex_world [])\<lparr>ctl := Some (ex_ctl\<lparr>dst := bp'\<rparr>), dsts := h'\<rparr>) \<and>
              free_list bp' h' [1] \<and> free_sem bp' = 1) \<and>
   (\<exists>w. mediabufs_ctl_delete (ex_world [Ioctl_ok, Ioctl_ok]) = Some w \<and> ctl w = None \<and>
        dsts w 1 = Some (ex_dst 20 False) \<and>
        qent_dst_free (Some 1) w = Some (None, w\<lparr>dsts := (dsts w)(1 := None)\<rparr>))"
proof -
  have e: "dsts (ex_world []) 1 = Some (ex_dst 20 False)" by (simp add: ex_world_def)
  have l: "ff_weak_link_lock (mbc_wl (ex_dst 20 False)) (ex_world [])"
    by (simp add: ff_weak_link_lock_def ex_world_def ex_dst_def)
  have pre: "ctl (ex_world []) = Some ex_ctl \<and> free_list (dst ex_ctl) (dsts (ex_world [])) [] \<and>
      1 \<notin> set ([] :: addr list)"
    by (simp add: ex_world_def ex_ctl_def ex_pool_def free_list_def dll_def)
  note t1 = qent_dst_free_weak_link [of "ex_world []", THEN conjunct2, THEN conjunct1, rule_format,
      OF e, THEN conjunct1, rule_format, OF l pre]
  then obtain bp' h' where 1: "qent_dst_free (Some 1) (ex_world []) =
                Some (None, (ex_world [])\<lparr>ctl := Some (ex_ctl\<lparr>dst := bp'\<rparr>), dsts := h'\<rparr>)"
    "free_list bp' h' [1]" "free_sem bp' = 1"
    by (auto simp: ex_ctl_def ex_pool_def)
  have "\<exists>w. mediabufs_ctl_delete (ex_world [Ioctl_ok, Ioctl_ok]) = Some w \<and>
          dsts w 1 = Some (ex_dst 20 False)"
    by (simp add: mediabufs_ctl_delete_def mediabufs_stream_off_def request_buffers_def ioctl_def
        polltask_delete_def ex_world_def ex_kernel_def ex_ctl_def)
  then obtain w where d: "mediabufs_ctl_delete (ex_world [Ioctl_ok, Ioctl_ok]) = Some w"
    "dsts w 1 = Some (ex_dst 20 False)" by blast
  note t2 = qent_dst_free_weak_link [of w, THEN conjunct2, THEN conjunct2, rule_format,
      of "ex_world [Ioctl_ok, Ioctl_ok]" 1 "ex_dst 20 False"]
  have 2: "ctl w = None \<and> qent_dst_free (Some 1) w = Some (None, w\<lparr>dsts := (dsts w)(1 := None)\<rparr>)"
    using t2 d by blast
  show ?thesis using e l 1 2 d by blast
qed

section \<open>Submitting a request\<close>



text \<open>
  Claim C2 at a submission whose destination buffer the kernel accepts and whose source
  buffer it refuses. The call returns operation-failed with both pointers of the caller
  set to NULL, the request is back on the free chain of its pool, the source entry is on
  the source free list and the destination entry is no longer marked as waiting. The
  destination entry is still on the destination in-use list, with the status
  \<^verbatim>\<open>QENT_WAITING\<close>, and its buffer is still queued in the kernel: the queueing that had
  succeeded is not undone.
\<close>

theorem mediabufs_start_request_src_failure:
  "\<exists>w' b. mediabufs_start_request (Some 0) (Some 1) (Some 1) True
       (ex_world [Ioctl_ok, Ioctl_err 22, Ioctl_ok]) =
         Some (MEDIABUFS_ERROR_OPERATION_FAILED, None, None, w') \<and>
       free_reqs (mpool w') = Some 0 \<and> sem (mpool w') = 1 \<and>
       map_option src (ctl w') = Some ((ex_pool (Some 1) (Some 1) None None)\<lparr>free_sem := 1\<rparr>) \<and>
       map_option waiting (dsts w' 1) = Some False \<and>
       map_option status (dsts w' 1) = Some QENT_WAITING \<and>
       map_option dst (ctl w') = Some (ex_pool None None (Some 1) (Some 1)) \<and>
       inuse_list (ex_pool None None (Some 1) (Some 1)) (dsts w') [1] \<and>
       hd (trace (kern w')) = (4, VIDIOC_QBUF b) \<and>
       b_type b = V4L2_BUF_TYPE_VIDEO_CAPTURE_MPLANE \<and>
       map pl_fd (b_planes b) = [20] \<and>
       length (trace (kern w')) = 3 \<and>
       last (trace (kern w')) = (5, MEDIA_REQUEST_IOC_REINIT)"
  by (simp add: model_defs example_defs inuse_list_def dll_def Let_def)

end
